theory Spec2Isabelle
  imports Main "HOL-Library.Word" "HOL-Library.Multiset"
begin

unbundle bit_operations_syntax

section \<open>Bytes and JavaScript number helpers\<close>

type_synonym byte = "8 word"

text \<open>\<open>ToInt32\<close> of ECMAScript on an integral number: reduce modulo \<open>2^32\<close> into the
  signed range. The bitwise operators \<open><<\<close>, \<open>>>\<close>, \<open>|\<close>, \<open>&\<close> and \<open>~\<close> all convert
  their operands this way and return a signed 32-bit result.\<close>

definition toInt32 :: "int \<Rightarrow> int" where
  "toInt32 x = (x + 2147483648) mod 4294967296 - 2147483648"

text \<open>\<open>x >> k\<close> (sign-propagating), \<open>x << k\<close>, \<open>x & m\<close> for a non-negative mask and \<open>~x\<close>.\<close>

definition js_shr :: "int \<Rightarrow> nat \<Rightarrow> int" where
  "js_shr x k = toInt32 x div 2 ^ k"

definition js_shl :: "int \<Rightarrow> nat \<Rightarrow> int" where
  "js_shl x k = toInt32 (toInt32 x * 2 ^ k)"

definition js_and :: "int \<Rightarrow> int \<Rightarrow> int" where
  "js_and x m = toInt32 (toInt32 x AND toInt32 m)"

definition js_or :: "int \<Rightarrow> int \<Rightarrow> int" where
  "js_or x y = toInt32 (toInt32 x OR toInt32 y)"

definition js_not :: "int \<Rightarrow> int" where
  "js_not x = - toInt32 x - 1"

lemma toInt32_id: "- 2147483648 \<le> x \<Longrightarrow> x < 2147483648 \<Longrightarrow> toInt32 x = x"
  by (simp add: toInt32_def)

lemma toInt32_bounds: "- 2147483648 \<le> toInt32 x \<and> toInt32 x < 2147483648"
  by (simp add: toInt32_def)

lemma toInt32_mod: "toInt32 x mod 65536 = x mod 65536"
proof -
  have d: "(65536::int) dvd 4294967296" by simp
  have "toInt32 x mod 65536 =
      ((x + 2147483648) mod 4294967296 mod 65536 - 2147483648 mod 65536) mod 65536"
    unfolding toInt32_def by (simp only: mod_diff_eq)
  also have "\<dots> = ((x + 2147483648) mod 65536 - 2147483648 mod 65536) mod 65536"
    by (simp only: mod_mod_cancel [OF d])
  also have "\<dots> = (x + 2147483648 - 2147483648) mod 65536"
    by (simp only: mod_diff_eq)
  finally show ?thesis by simp
qed

lemma js_and_mask16: "js_and s 0xFFFF = s mod 65536"
proof -
  have m: "(65535::int) = mask 16" by (simp add: mask_eq_exp_minus_1)
  have "toInt32 s AND 65535 = toInt32 s mod 65536"
    unfolding m by (simp add: take_bit_eq_mod flip: take_bit_eq_mask)
  then show ?thesis
    by (simp add: js_and_def toInt32_id toInt32_mod)
qed

lemma js_shr_bounds: "- 32768 \<le> js_shr s 16 \<and> js_shr s 16 < 32768"
  using toInt32_bounds [of s] unfolding js_shr_def by simp linarith

lemma js_shr_small: "0 \<le> s \<Longrightarrow> s < 65536 \<Longrightarrow> js_shr s 16 = 0"
  by (simp add: js_shr_def toInt32_id)

text \<open>Rounding an integer to the nearest binary64 value (ties to even), for sums and
  differences the source computes on numbers beyond \<open>2^53\<close>.\<close>

function bitLength :: "int \<Rightarrow> nat" where
  "bitLength n = (if n \<le> 0 then 0 else Suc (bitLength (n div 2)))"
  by pat_completeness auto
termination
  by (relation "measure nat") auto

declare bitLength.simps [simp del]

definition roundDouble :: "int \<Rightarrow> int" where
  "roundDouble x =
     (let a = \<bar>x\<bar> in
      if a < 2 ^ 53 then x
      else
        (let e = bitLength a - 53;
             q = a div 2 ^ e;
             r = a mod 2 ^ e;
             h = 2 ^ (e - 1);
             q' = (if r > h \<or> (r = h \<and> odd q) then q + 1 else q)
         in sgn x * (q' * 2 ^ e)))"

text \<open>A number whose value is an integer, an infinity or NaN: the results of \<open>parseInt\<close>
  and of the differences taken on them. The two zeros are not told apart (they are equal
  under \<open>===\<close>, \<open><\<close> and \<open>-\<close>, and both are \<open>0\<close> as the operand of a bitwise operator).\<close>

datatype jsnumber = Num int | NaN | PosInfinity | NegInfinity

text \<open>The number for a mathematical integer: the nearest binary64 value, which is an
  infinity from \<open>2^1024\<close> on.\<close>

definition toNumber :: "int \<Rightarrow> jsnumber" where
  "toNumber x =
     (let y = roundDouble x in
      if y \<ge> 2 ^ 1024 then PosInfinity else if y \<le> - (2 ^ 1024) then NegInfinity else Num y)"

text \<open>\<open>Array.prototype.slice(a, b)\<close> for non-negative bounds.\<close>

definition slice :: "'a list \<Rightarrow> nat \<Rightarrow> nat \<Rightarrow> 'a list" where
  "slice xs a b = take (b - a) (drop a xs)"

section \<open>MUP1 framing (class MUP1Protocol)\<close>

definition SOF :: byte where "SOF = 0x3E"
definition EOF :: byte where "EOF = 0x3C"
definition ESCAPE :: byte where "ESCAPE = 0x5C"

subsection \<open>calculateChecksum\<close>

text \<open>The \<open>for\<close> loop adds the data as big-endian 16-bit words; an odd trailing byte is
  the high half of its word. The two copies of the class compute the same words
  (one writes the missing low byte as \<open>0\<close>).\<close>

fun sumWords :: "byte list \<Rightarrow> int" where
  "sumWords [] = 0"
| "sumWords [hi] = js_shl (uint hi) 8"
| "sumWords (hi # lo # rest) = js_or (js_shl (uint hi) 8) (uint lo) + sumWords rest"

text \<open>\<open>while (sum >> 16) sum = (sum & 0xFFFF) + (sum >> 16)\<close>. The measure shows the loop
  ends after at most two rounds once the sum is in the range one round produces.\<close>

definition carryMeasure :: "int \<Rightarrow> nat" where
  "carryMeasure s =
     (if js_shr s 16 = 0 then 0 else if - 32768 \<le> s \<and> s \<le> 98302 then 1 else 2)"

lemma carry_step:
  assumes "js_shr s 16 \<noteq> 0"
  shows "carryMeasure (js_and s 0xFFFF + js_shr s 16) < carryMeasure s"
proof -
  let ?t = "s mod 65536 + js_shr s 16"
  have r: "- 32768 \<le> ?t" "?t \<le> 98302"
    using js_shr_bounds [of s] pos_mod_bound [of 65536 s] pos_mod_sign [of 65536 s]
    by linarith+
  show ?thesis
  proof (cases "- 32768 \<le> s \<and> s \<le> 98302")
    case False
    with assms r show ?thesis by (simp add: carryMeasure_def js_and_mask16)
  next
    case True
    then have i: "toInt32 s = s" by (simp add: toInt32_id)
    from assms have "s < 0 \<or> 65536 \<le> s" using js_shr_small [of s] by linarith
    then have "0 \<le> ?t \<and> ?t < 65536"
    proof
      assume "s < 0"
      with True have "s div 65536 = - 1" "s mod 65536 = s + 65536"
        by (simp_all add: int_div_pos_eq [of s 65536 "- 1" "s + 65536"]
            int_mod_pos_eq [of s 65536 "- 1" "s + 65536"])
      with True \<open>s < 0\<close> show ?thesis by (simp add: js_shr_def i)
    next
      assume "65536 \<le> s"
      with True have "s div 65536 = 1" "s mod 65536 = s - 65536"
        by (simp_all add: int_div_pos_eq [of s 65536 1 "s - 65536"]
            int_mod_pos_eq [of s 65536 1 "s - 65536"])
      with True \<open>65536 \<le> s\<close> show ?thesis by (simp add: js_shr_def i)
    qed
    then have "js_shr ?t 16 = 0" by (simp add: js_shr_small)
    with assms True show ?thesis by (simp add: carryMeasure_def js_and_mask16)
  qed
qed

function foldCarry :: "int \<Rightarrow> int" where
  "foldCarry s = (if js_shr s 16 \<noteq> 0 then foldCarry (js_and s 0xFFFF + js_shr s 16) else s)"
  by pat_completeness auto
termination
  by (relation "measure carryMeasure") (simp_all add: carry_step)

declare foldCarry.simps [simp del]

definition calculateChecksum :: "byte list \<Rightarrow> int" where
  "calculateChecksum data = js_and (js_not (foldCarry (sumWords data))) 0xFFFF"

subsection \<open>escapeData and unescapeData: the prefix scheme\<close>

text \<open>Each of SOF, EOF and ESCAPE is preceded by ESCAPE; every other byte passes.\<close>

fun escapeData :: "byte list \<Rightarrow> byte list" where
  "escapeData [] = []"
| "escapeData (b # bs) =
     (if b \<in> set [SOF, EOF, ESCAPE] then ESCAPE # b # escapeData bs else b # escapeData bs)"

text \<open>The index loop skips an ESCAPE that has a byte after it and copies that byte; an
  ESCAPE in the last position is copied itself.\<close>

fun unescapeData :: "byte list \<Rightarrow> byte list" where
  "unescapeData [] = []"
| "unescapeData [b] = [b]"
| "unescapeData (b # c # rest) =
     (if b = ESCAPE then c # unescapeData rest else b # unescapeData (c # rest))"

subsection \<open>escapeData and unescapeData: the substitution scheme\<close>

text \<open>The second copy of the class also replaces \<open>0x00\<close> by ESCAPE \<open>0x30\<close> and \<open>0xFF\<close> by
  ESCAPE \<open>0x46\<close>.\<close>

fun escapeDataSubst :: "byte list \<Rightarrow> byte list" where
  "escapeDataSubst [] = []"
| "escapeDataSubst (b # bs) =
     (if b = 0x00 then ESCAPE # 0x30 # escapeDataSubst bs
      else if b = 0xFF then ESCAPE # 0x46 # escapeDataSubst bs
      else if b = SOF then ESCAPE # SOF # escapeDataSubst bs
      else if b = EOF then ESCAPE # EOF # escapeDataSubst bs
      else if b = ESCAPE then ESCAPE # ESCAPE # escapeDataSubst bs
      else b # escapeDataSubst bs)"

fun unescapeDataSubst :: "byte list \<Rightarrow> byte list" where
  "unescapeDataSubst [] = []"
| "unescapeDataSubst [b] = [b]"
| "unescapeDataSubst (b # c # rest) =
     (if b = ESCAPE then
        (if c = 0x30 then 0x00 # unescapeDataSubst rest
         else if c = 0x46 then 0xFF # unescapeDataSubst rest
         else c # unescapeDataSubst rest)
      else b # unescapeDataSubst (c # rest))"

subsection \<open>The checksum as four hexadecimal characters\<close>

definition hexDigit :: "nat \<Rightarrow> byte" where
  "hexDigit d = (if d < 10 then of_nat (48 + d) else of_nat (87 + d))"

text \<open>\<open>Number.prototype.toString(16)\<close> on a non-negative integer.\<close>

fun toString16 :: "nat \<Rightarrow> byte list" where
  "toString16 n = (if n < 16 then [hexDigit n] else toString16 (n div 16) @ [hexDigit (n mod 16)])"

declare toString16.simps [simp del]

definition padStart4 :: "byte list \<Rightarrow> byte list" where
  "padStart4 s = replicate (4 - length s) 0x30 @ s"

definition checksumStr :: "int \<Rightarrow> byte list" where
  "checksumStr checksum = padStart4 (toString16 (nat checksum))"

subsection \<open>createFrame\<close>

text \<open>First copy: the checksum covers the frame as sent (escaped payload), and a second EOF
  is pushed when the frame so far plus the four checksum characters has even length.\<close>

definition createFrame :: "char \<Rightarrow> byte list \<Rightarrow> byte list" where
  "createFrame type data =
     (let frame0 = [SOF, of_char type] @ (if length data > 0 then escapeData data else []) @ [EOF];
          frame1 = (if (length frame0 + 4) mod 2 = 0 then frame0 @ [EOF] else frame0)
      in frame1 @ checksumStr (calculateChecksum frame1))"

text \<open>Second copy: the checksum covers the payload before escaping, and a second EOF is
  pushed when the payload has an even number of bytes.\<close>

definition createFrameSubst :: "char \<Rightarrow> byte list \<Rightarrow> byte list" where
  "createFrameSubst type data =
     (let checksumData = [SOF, of_char type] @ data @ [EOF]
            @ (if length data mod 2 = 0 then [EOF] else []);
          cs = checksumStr (calculateChecksum checksumData);
          frame = [SOF, of_char type] @ (if length data > 0 then escapeDataSubst data else [])
            @ [EOF] @ (if length data mod 2 = 0 then [EOF] else [])
      in frame @ cs)"

definition createPing :: "byte list" where
  "createPing = createFrame CHR ''p'' []"

definition createPingSubst :: "byte list" where
  "createPingSubst = createFrameSubst CHR ''p'' []"

subsection \<open>parseFrame\<close>

text \<open>\<open>parseInt(str, radix)\<close> on a string of byte-valued characters (code units below
  256): leading white space is skipped and a sign is accepted; a radix that is absent
  (\<open>None\<close>) or 0 means 10, any other radix outside 2 to 36 gives NaN; a \<open>0x\<close> prefix is
  accepted when the radix is 16, absent or 0, and then makes it 16; the longest run of digits
  of the radix is read, and the result is NaN when there is no digit. The value is the
  number nearest to the integer read. (The standard lets an engine replace the decimal
  digits after the twentieth by zeros; the model keeps them.)\<close>

definition isWhiteSpace :: "byte \<Rightarrow> bool" where
  "isWhiteSpace b = (b \<in> set [0x09, 0x0A, 0x0B, 0x0C, 0x0D, 0x20, 0xA0])"

definition digitVal :: "nat \<Rightarrow> byte \<Rightarrow> nat option" where
  "digitVal radix b =
     (let d = (if 0x30 \<le> b \<and> b \<le> 0x39 then unat b - 48
               else if 0x61 \<le> b \<and> b \<le> 0x7A then unat b - 87
               else if 0x41 \<le> b \<and> b \<le> 0x5A then unat b - 55
               else 36)
      in if d < radix then Some d else None)"

fun digitsOf :: "nat \<Rightarrow> byte list \<Rightarrow> nat list" where
  "digitsOf radix [] = []"
| "digitsOf radix (b # bs) =
     (case digitVal radix b of None \<Rightarrow> [] | Some d \<Rightarrow> d # digitsOf radix bs)"

fun stripSign :: "byte list \<Rightarrow> int \<times> byte list" where
  "stripSign [] = (1, [])"
| "stripSign (b # bs) =
     (if b = 0x2D then (- 1, bs) else if b = 0x2B then (1, bs) else (1, b # bs))"

fun hasHexPrefix :: "byte list \<Rightarrow> bool" where
  "hasHexPrefix (z # x # bs) = (z = 0x30 \<and> (x = 0x78 \<or> x = 0x58))"
| "hasHexPrefix bs = False"

definition parseInt :: "byte list \<Rightarrow> nat option \<Rightarrow> jsnumber" where
  "parseInt str radix =
     (let (sign, rest) = stripSign (dropWhile isWhiteSpace str);
          R = (case radix of None \<Rightarrow> 0 | Some k \<Rightarrow> k)
      in if R \<noteq> 0 \<and> (R < 2 \<or> R > 36) then NaN
         else
           (let stripPrefix = (R = 0 \<or> R = 16);
                hex = (stripPrefix \<and> hasHexPrefix rest);
                r = (if hex then 16 else if R = 0 then 10 else R);
                ds = digitsOf r (if hex then drop 2 rest else rest)
            in if ds = [] then NaN
               else toNumber (sign * int (foldl (\<lambda>acc d. r * acc + d) 0 ds))))"

datatype mup1_error = NoStartOfFrame | NoEndOfFrame | IncompleteChecksum

record mup1_frame =
  frame_type :: char
  frame_data :: "byte list"
  frame_checksum :: jsnumber
  checksumValid :: bool

text \<open>The first loop: the index of the first SOF.\<close>

fun findStart :: "byte list \<Rightarrow> nat option" where
  "findStart [] = None"
| "findStart (b # bs) = (if b = SOF then Some 0 else map_option Suc (findStart bs))"

text \<open>The second loop, from index \<open>i\<close>: the first EOF whose predecessor is not ESCAPE ends
  the frame; when the byte after it is another EOF, the frame ends there instead.\<close>

function findEnd :: "byte list \<Rightarrow> nat \<Rightarrow> nat option" where
  "findEnd buf i =
     (if i < length buf then
        (if buf ! i = EOF \<and> (i = 0 \<or> buf ! (i - 1) \<noteq> ESCAPE) then
           Some (if i + 1 < length buf \<and> buf ! (i + 1) = EOF then i + 1 else i)
         else findEnd buf (i + 1))
      else None)"
  by pat_completeness auto
termination
  by (relation "measure (\<lambda>(buf, i). length buf - i)") auto

declare findEnd.simps [simp del]

text \<open>\<open>while (escapedPayload.length > 0 && last === EOF) escapedPayload.pop()\<close>.\<close>

definition popEOF :: "byte list \<Rightarrow> byte list" where
  "popEOF xs = rev (dropWhile (\<lambda>b. b = EOF) (rev xs))"

definition parseFrameWith :: "(byte list \<Rightarrow> byte list) \<Rightarrow> byte list \<Rightarrow> mup1_error + mup1_frame" where
  "parseFrameWith unescape buf =
     (case findStart buf of
        None \<Rightarrow> Inl NoStartOfFrame
      | Some startIdx \<Rightarrow>
        (case findEnd buf (startIdx + 1) of
           None \<Rightarrow> Inl NoEndOfFrame
         | Some endIdx \<Rightarrow>
           (let checksumStart = endIdx + 1 in
            if checksumStart + 4 > length buf then Inl IncompleteChecksum
            else
              (let receivedChecksum = parseInt (slice buf checksumStart (checksumStart + 4)) (Some 16);
                   frameData = slice buf startIdx (endIdx + 1);
                   calculatedChecksum = calculateChecksum frameData;
                   commandType = char_of (unat (buf ! (startIdx + 1)));
                   payloadStart = startIdx + 2;
                   payloadEnd = endIdx;
                   payload =
                     (if payloadEnd > payloadStart then
                        (let escapedPayload = popEOF (slice buf payloadStart payloadEnd)
                         in if length escapedPayload > 0 then unescape escapedPayload else [])
                      else [])
               in Inr \<lparr>frame_type = commandType, frame_data = payload,
                        frame_checksum = receivedChecksum,
                        checksumValid = (receivedChecksum = Num calculatedChecksum)\<rparr>))))"

text \<open>The two copies of \<open>parseFrame\<close> have the same text; each calls its own class's
  \<open>unescapeData\<close>.\<close>

definition parseFrame :: "byte list \<Rightarrow> mup1_error + mup1_frame" where
  "parseFrame = parseFrameWith unescapeData"

definition parseFrameSubst :: "byte list \<Rightarrow> mup1_error + mup1_frame" where
  "parseFrameSubst = parseFrameWith unescapeDataSubst"

section \<open>CBOR codec (class CBOREncoder)\<close>

subsection \<open>JavaScript values\<close>

text \<open>The values the codec reads and writes. A number is \<open>JNum n\<close> when it is an integer
  (\<open>Number.isInteger\<close>; the two zeros are not told apart), \<open>JFloat w\<close> with its IEEE-754
  binary64 pattern \<open>w\<close> when it is finite and not an integer or is infinite, and \<open>JNaN\<close>.
  A string is held as its UTF-8 bytes, a \<open>Uint8Array\<close> as its bytes, and an object as
  its own properties in the order \<open>Object.entries\<close> lists them.\<close>

datatype jsval =
    JUndefined
  | JNull
  | JBool bool
  | JNum int
  | JFloat "64 word"
  | JNaN
  | JStr "byte list"
  | JBytes "byte list"
  | JArr "jsval list"
  | JObj "(byte list \<times> jsval) list"

text \<open>A number that may be NaN (\<open>None\<close>): offsets and lengths of the decoder.\<close>

type_synonym jsnum = "int option"

subsection \<open>Encoding\<close>

definition UNSIGNED_INT :: int where "UNSIGNED_INT = 0"
definition NEGATIVE_INT :: int where "NEGATIVE_INT = 1"
definition BYTE_STRING :: int where "BYTE_STRING = 2"
definition TEXT_STRING :: int where "TEXT_STRING = 3"
definition ARRAY :: int where "ARRAY = 4"
definition MAP :: int where "MAP = 5"
definition TAG :: int where "TAG = 6"
definition FLOAT_SIMPLE :: int where "FLOAT_SIMPLE = 7"

definition SIMPLE_FALSE :: int where "SIMPLE_FALSE = 20"
definition SIMPLE_TRUE :: int where "SIMPLE_TRUE = 21"
definition SIMPLE_NULL :: int where "SIMPLE_NULL = 22"
definition SIMPLE_UNDEFINED :: int where "SIMPLE_UNDEFINED = 23"

text \<open>A number pushed on the output array becomes a byte when \<open>new Uint8Array(bytes)\<close>
  reduces it modulo 256.\<close>

definition toUint8 :: "int \<Rightarrow> byte" where
  "toUint8 v = word_of_int v"

definition encodeTypeAndValue :: "int \<Rightarrow> int \<Rightarrow> byte list" where
  "encodeTypeAndValue majorType v =
     (let type = js_shl majorType 5 in
      if v < 24 then [toUint8 (js_or type v)]
      else if v < 256 then [toUint8 (js_or type 24), toUint8 v]
      else if v < 65536 then
        [toUint8 (js_or type 25), toUint8 (js_and (js_shr v 8) 0xFF), toUint8 (js_and v 0xFF)]
      else if v < 4294967296 then
        [toUint8 (js_or type 26), toUint8 (js_and (js_shr v 24) 0xFF),
         toUint8 (js_and (js_shr v 16) 0xFF), toUint8 (js_and (js_shr v 8) 0xFF),
         toUint8 (js_and v 0xFF)]
      else
        (let high = v div 4294967296; low = v mod 4294967296 in
         [toUint8 (js_or type 27), toUint8 (js_and (js_shr high 24) 0xFF),
          toUint8 (js_and (js_shr high 16) 0xFF), toUint8 (js_and (js_shr high 8) 0xFF),
          toUint8 (js_and high 0xFF), toUint8 (js_and (js_shr low 24) 0xFF),
          toUint8 (js_and (js_shr low 16) 0xFF), toUint8 (js_and (js_shr low 8) 0xFF),
          toUint8 (js_and low 0xFF)]))"

definition encodeUnsignedInt :: "int \<Rightarrow> byte list" where
  "encodeUnsignedInt v = encodeTypeAndValue UNSIGNED_INT v"

definition encodeNegativeInt :: "int \<Rightarrow> byte list" where
  "encodeNegativeInt v = encodeTypeAndValue NEGATIVE_INT v"

text \<open>The eight bytes \<open>DataView.setFloat64(0, value, false)\<close> writes, most significant
  first.\<close>

definition float64Bytes :: "64 word \<Rightarrow> byte list" where
  "float64Bytes w = map (\<lambda>i. ucast (drop_bit (8 * (7 - i)) w)) [0..<8]"

definition encodeFloat :: "64 word \<Rightarrow> byte list" where
  "encodeFloat w = toUint8 (js_or (js_shl FLOAT_SIMPLE 5) 27) # float64Bytes w"

text \<open>For NaN the pattern written is the engine's choice; the quiet NaN is taken here.\<close>

definition nanPattern :: "64 word" where
  "nanPattern = 0x7FF8000000000000"

definition encodeString :: "byte list \<Rightarrow> byte list" where
  "encodeString encoded = encodeTypeAndValue TEXT_STRING (int (length encoded)) @ encoded"

definition encodeByteString :: "byte list \<Rightarrow> byte list" where
  "encodeByteString bs = encodeTypeAndValue BYTE_STRING (int (length bs)) @ bs"

fun encodeValue :: "jsval \<Rightarrow> byte list" where
  "encodeValue (JBool False) = [toUint8 (js_or (js_shl FLOAT_SIMPLE 5) SIMPLE_FALSE)]"
| "encodeValue (JBool True) = [toUint8 (js_or (js_shl FLOAT_SIMPLE 5) SIMPLE_TRUE)]"
| "encodeValue JNull = [toUint8 (js_or (js_shl FLOAT_SIMPLE 5) SIMPLE_NULL)]"
| "encodeValue JUndefined = [toUint8 (js_or (js_shl FLOAT_SIMPLE 5) SIMPLE_UNDEFINED)]"
| "encodeValue (JNum n) =
     (if n \<ge> 0 then encodeUnsignedInt n else encodeNegativeInt (roundDouble (- n - 1)))"
| "encodeValue (JFloat w) = encodeFloat w"
| "encodeValue JNaN = encodeFloat nanPattern"
| "encodeValue (JStr s) = encodeString s"
| "encodeValue (JBytes bs) = encodeByteString bs"
| "encodeValue (JArr items) =
     encodeTypeAndValue ARRAY (int (length items)) @ concat (map encodeValue items)"
| "encodeValue (JObj entries) =
     encodeTypeAndValue MAP (int (length entries))
       @ concat (map (\<lambda>(k, v). encodeString k @ encodeValue v) entries)"

definition encode :: "jsval \<Rightarrow> byte list" where
  "encode v = encodeValue v"

subsection \<open>Decoding: reads, slices and number conversions\<close>

datatype cbor_error =
    UnexpectedEnd
  | InvalidAdditionalInfo int
  | ByteStringBeyond
  | TextStringBeyond
  | UnsupportedFloatSimple int
  | InvalidLengthEncoding int
  | StackOverflow

text \<open>\<open>data[offset]\<close> on a \<open>Uint8Array\<close>: \<open>undefined\<close> (\<open>None\<close>) outside the array and
  for a NaN offset. No read of the source is guarded, so each one goes through this.\<close>

definition getByte :: "byte list \<Rightarrow> jsnum \<Rightarrow> byte option" where
  "getByte buf offset =
     (case offset of
        None \<Rightarrow> None
      | Some i \<Rightarrow> if 0 \<le> i \<and> i < int (length buf) then Some (buf ! nat i) else None)"

text \<open>An element as operand of a bitwise operator: \<open>undefined\<close> converts to \<open>0\<close>.\<close>

definition byteInt :: "byte option \<Rightarrow> int" where
  "byteInt b = (case b of None \<Rightarrow> 0 | Some x \<Rightarrow> uint x)"

text \<open>An element as a value: a number, or \<open>undefined\<close>.\<close>

definition byteValue :: "byte option \<Rightarrow> jsval" where
  "byteValue b = (case b of None \<Rightarrow> JUndefined | Some x \<Rightarrow> JNum (uint x))"

definition offAdd :: "jsnum \<Rightarrow> int \<Rightarrow> jsnum" where
  "offAdd offset k = map_option (\<lambda>i. i + k) offset"

text \<open>\<open>(data[o] << 8) | data[o + 1]\<close> and the four-byte form; the results are signed
  32-bit integers.\<close>

definition be16 :: "byte list \<Rightarrow> jsnum \<Rightarrow> int" where
  "be16 buf offset =
     js_or (js_shl (byteInt (getByte buf offset)) 8) (byteInt (getByte buf (offAdd offset 1)))"

definition be32 :: "byte list \<Rightarrow> jsnum \<Rightarrow> int" where
  "be32 buf offset =
     js_or (js_or (js_or (js_shl (byteInt (getByte buf offset)) 24)
                         (js_shl (byteInt (getByte buf (offAdd offset 1))) 16))
                  (js_shl (byteInt (getByte buf (offAdd offset 2))) 8))
           (byteInt (getByte buf (offAdd offset 3)))"

text \<open>\<open>start + lengthResult.value\<close>: NaN when either side is NaN or \<open>undefined\<close>.\<close>

definition numAdd :: "jsnum \<Rightarrow> jsval \<Rightarrow> jsnum" where
  "numAdd start v =
     (case (start, v) of (Some s, JNum n) \<Rightarrow> Some (roundDouble (s + n)) | _ \<Rightarrow> None)"

text \<open>\<open>x > data.length\<close> and \<open>x >= data.length\<close>: false for NaN.\<close>

definition numGreater :: "jsnum \<Rightarrow> nat \<Rightarrow> bool" where
  "numGreater x n = (case x of None \<Rightarrow> False | Some i \<Rightarrow> i > int n)"

definition numGreaterEq :: "jsnum \<Rightarrow> nat \<Rightarrow> bool" where
  "numGreaterEq x n = (case x of None \<Rightarrow> False | Some i \<Rightarrow> i \<ge> int n)"

text \<open>\<open>TypedArray.prototype.slice(start, end)\<close>: NaN counts as 0, a negative index is
  taken from the end, and both are clamped to the array.\<close>

definition relIndex :: "nat \<Rightarrow> jsnum \<Rightarrow> nat" where
  "relIndex len x =
     (case x of
        None \<Rightarrow> 0
      | Some i \<Rightarrow> if i < 0 then nat (max (int len + i) 0) else nat (min i (int len)))"

definition taSlice :: "byte list \<Rightarrow> jsnum \<Rightarrow> jsnum \<Rightarrow> byte list" where
  "taSlice buf start end =
     (let f = relIndex (length buf) start; t = relIndex (length buf) end
      in take (t - f) (drop f buf))"

text \<open>The number of rounds of \<open>for (let i = 0; i < lengthResult.value; i++)\<close>: none for a
  negative or \<open>undefined\<close> bound. (Bounds past \<open>2^32\<close>, where the engine's array and
  counter limits would come first, are read as plain counts.)\<close>

definition loopCount :: "jsval \<Rightarrow> nat" where
  "loopCount v = (case v of JNum n \<Rightarrow> nat n | _ \<Rightarrow> 0)"

text \<open>\<open>-result.value - 1\<close>.\<close>

definition negateMinusOne :: "jsval \<Rightarrow> jsval" where
  "negateMinusOne v = (case v of JNum n \<Rightarrow> JNum (roundDouble (- n - 1)) | _ \<Rightarrow> JNaN)"

text \<open>\<open>DataView.getFloat64\<close>: the number a binary64 pattern denotes.\<close>

definition float64Value :: "64 word \<Rightarrow> jsval" where
  "float64Value w =
     (let sign = (if bit w 63 then - 1 else 1 :: int);
          e = unat (drop_bit 52 w AND 0x7FF);
          m = uint (w AND 0xFFFFFFFFFFFFF);
          sig = 2 ^ 52 + m
      in if e = 2047 then (if m = 0 then JFloat w else JNaN)
         else if e = 0 then (if m = 0 then JNum 0 else JFloat w)
         else if e \<ge> 1075 then JNum (sign * sig * 2 ^ (e - 1075))
         else if sig mod 2 ^ (1075 - e) = 0 then JNum (sign * (sig div 2 ^ (1075 - e)))
         else JFloat w)"

definition wordOfBytes :: "byte list \<Rightarrow> 64 word" where
  "wordOfBytes bs = foldl (\<lambda>acc b. push_bit 8 acc OR ucast b) 0 bs"

text \<open>\<open>new TextDecoder().decode(bytes)\<close>: the UTF-8 decoder of the Encoding standard. A
  well-formed sequence is kept, each ill-formed one becomes U+FFFD, and a leading byte
  order mark is dropped.\<close>

definition replacementChar :: "byte list" where
  "replacementChar = [0xEF, 0xBF, 0xBD]"

fun utf8Scan :: "nat \<Rightarrow> byte \<Rightarrow> byte \<Rightarrow> byte list \<Rightarrow> byte list \<Rightarrow> byte list" where
  "utf8Scan needed lo hi pend [] = (if needed = 0 then [] else replacementChar)"
| "utf8Scan 0 lo hi pend (b # bs) =
     (if b \<le> 0x7F then b # utf8Scan 0 0x80 0xBF [] bs
      else if 0xC2 \<le> b \<and> b \<le> 0xDF then utf8Scan 1 0x80 0xBF [b] bs
      else if 0xE0 \<le> b \<and> b \<le> 0xEF then
        utf8Scan 2 (if b = 0xE0 then 0xA0 else 0x80) (if b = 0xED then 0x9F else 0xBF) [b] bs
      else if 0xF0 \<le> b \<and> b \<le> 0xF4 then
        utf8Scan 3 (if b = 0xF0 then 0x90 else 0x80) (if b = 0xF4 then 0x8F else 0xBF) [b] bs
      else replacementChar @ utf8Scan 0 0x80 0xBF [] bs)"
| "utf8Scan (Suc n) lo hi pend (b # bs) =
     (if b < lo \<or> hi < b then replacementChar @ utf8Scan 0 0x80 0xBF [] (b # bs)
      else if n = 0 then pend @ [b] @ utf8Scan 0 0x80 0xBF [] bs
      else utf8Scan n 0x80 0xBF (pend @ [b]) bs)"

definition textDecode :: "byte list \<Rightarrow> byte list" where
  "textDecode bs =
     utf8Scan 0 0x80 0xBF [] (if take 3 bs = [0xEF, 0xBB, 0xBF] then drop 3 bs else bs)"

text \<open>\<open>map[key] = value\<close> on an object made by \<open>{}\<close>. The key \<open>__proto__\<close> reaches the
  prototype setter and makes no property; a key already there keeps its place; a new
  array-index key goes among the index keys in ascending order, any other new key last.\<close>

definition protoKey :: "byte list" where
  "protoKey = [0x5F, 0x5F, 0x70, 0x72, 0x6F, 0x74, 0x6F, 0x5F, 0x5F]"

definition isDigit :: "byte \<Rightarrow> bool" where
  "isDigit b = (0x30 \<le> b \<and> b \<le> 0x39)"

definition decimalValue :: "byte list \<Rightarrow> nat" where
  "decimalValue s = foldl (\<lambda>acc b. 10 * acc + (unat b - 48)) 0 s"

definition arrayIndex :: "byte list \<Rightarrow> nat option" where
  "arrayIndex s =
     (if s \<noteq> [] \<and> list_all isDigit s \<and> length s \<le> 10 \<and> (length s = 1 \<or> hd s \<noteq> 0x30)
         \<and> decimalValue s < 4294967295
      then Some (decimalValue s) else None)"

fun insertIndexed ::
  "byte list \<Rightarrow> nat \<Rightarrow> jsval \<Rightarrow> (byte list \<times> jsval) list \<Rightarrow> (byte list \<times> jsval) list" where
  "insertIndexed k n v [] = [(k, v)]"
| "insertIndexed k n v ((k', v') # rest) =
     (case arrayIndex k' of
        Some m \<Rightarrow> if m < n then (k', v') # insertIndexed k n v rest else (k, v) # (k', v') # rest
      | None \<Rightarrow> (k, v) # (k', v') # rest)"

definition setProperty ::
  "(byte list \<times> jsval) list \<Rightarrow> byte list \<Rightarrow> jsval \<Rightarrow> (byte list \<times> jsval) list" where
  "setProperty obj k v =
     (if k = protoKey then obj
      else if k \<in> set (map fst obj) then map (\<lambda>(k', v'). if k' = k then (k', v) else (k', v')) obj
      else (case arrayIndex k of Some n \<Rightarrow> insertIndexed k n v obj | None \<Rightarrow> obj @ [(k, v)]))"

subsection \<open>Decoding: the functions of the class\<close>

definition decodeUnsignedInt :: "byte list \<Rightarrow> jsnum \<Rightarrow> cbor_error + (jsval \<times> jsnum)" where
  "decodeUnsignedInt buf offset0 =
     (let additionalInfo = js_and (byteInt (getByte buf offset0)) 0x1F;
          offset = offAdd offset0 1
      in if additionalInfo < 24 then Inr (JNum additionalInfo, offset)
         else if additionalInfo = 24 then Inr (byteValue (getByte buf offset), offAdd offset 1)
         else if additionalInfo = 25 then Inr (JNum (be16 buf offset), offAdd offset 2)
         else if additionalInfo = 26 then Inr (JNum (be32 buf offset), offAdd offset 4)
         else if additionalInfo = 27 then
           (let high = be32 buf offset; low = be32 buf (offAdd offset 4)
            in Inr (JNum (roundDouble (high * 4294967296 + low)), offAdd offset 8))
         else Inl (InvalidAdditionalInfo additionalInfo))"

definition decodeLength :: "byte list \<Rightarrow> jsnum \<Rightarrow> cbor_error + (jsval \<times> jsnum)" where
  "decodeLength buf offset0 =
     (let additionalInfo = js_and (byteInt (getByte buf offset0)) 0x1F;
          offset = offAdd offset0 1
      in if additionalInfo < 24 then Inr (JNum additionalInfo, offset)
         else if additionalInfo = 24 then Inr (byteValue (getByte buf offset), offAdd offset 1)
         else if additionalInfo = 25 then Inr (JNum (be16 buf offset), offAdd offset 2)
         else if additionalInfo = 26 then Inr (JNum (be32 buf offset), offAdd offset 4)
         else if additionalInfo = 27 then
           (let high = be32 buf offset; low = be32 buf (offAdd offset 4)
            in Inr (JNum (roundDouble (high * 4294967296 + low)), offAdd offset 8))
         else if additionalInfo = 31 then Inr (JNum (- 1), offset)
         else Inl (InvalidLengthEncoding additionalInfo))"

definition decodeByteString :: "byte list \<Rightarrow> jsnum \<Rightarrow> cbor_error + (jsval \<times> jsnum)" where
  "decodeByteString buf offset =
     (case decodeLength buf offset of
        Inl e \<Rightarrow> Inl e
      | Inr (len, start) \<Rightarrow>
          (let end = numAdd start len
           in if numGreater end (length buf) then Inl ByteStringBeyond
              else Inr (JBytes (taSlice buf start end), end)))"

definition decodeTextString :: "byte list \<Rightarrow> jsnum \<Rightarrow> cbor_error + (jsval \<times> jsnum)" where
  "decodeTextString buf offset =
     (case decodeLength buf offset of
        Inl e \<Rightarrow> Inl e
      | Inr (len, start) \<Rightarrow>
          (let end = numAdd start len
           in if numGreater end (length buf) then Inl TextStringBeyond
              else Inr (JStr (textDecode (taSlice buf start end)), end)))"

definition decodeFloatSimple :: "byte list \<Rightarrow> jsnum \<Rightarrow> cbor_error + (jsval \<times> jsnum)" where
  "decodeFloatSimple buf offset0 =
     (let additionalInfo = js_and (byteInt (getByte buf offset0)) 0x1F;
          offset = offAdd offset0 1
      in if additionalInfo < 20 then Inr (JNum additionalInfo, offset)
         else if additionalInfo = SIMPLE_FALSE then Inr (JBool False, offset)
         else if additionalInfo = SIMPLE_TRUE then Inr (JBool True, offset)
         else if additionalInfo = SIMPLE_NULL then Inr (JNull, offset)
         else if additionalInfo = SIMPLE_UNDEFINED then Inr (JUndefined, offset)
         else if additionalInfo = 27 then
           Inr (float64Value (wordOfBytes
                  (map (\<lambda>i. toUint8 (byteInt (getByte buf (offAdd offset (int i))))) [0..<8])),
                offAdd offset 8)
         else Inl (UnsupportedFloatSimple additionalInfo))"

text \<open>\<open>_decodeValue\<close> with the loops of \<open>_decodeArray\<close> and \<open>_decodeMap\<close>. The first
  argument is the engine's conversion of a decoded key to a property name, the second the
  call-stack depth left: each nested \<open>_decodeValue\<close> takes one frame, and running out is
  the engine's stack overflow error.\<close>

function decodeValue ::
    "(jsval \<Rightarrow> byte list) \<Rightarrow> nat \<Rightarrow> byte list \<Rightarrow> jsnum \<Rightarrow> cbor_error + (jsval \<times> jsnum)"
  and decodeArrayItems ::
    "(jsval \<Rightarrow> byte list) \<Rightarrow> nat \<Rightarrow> nat \<Rightarrow> byte list \<Rightarrow> jsnum
       \<Rightarrow> cbor_error + (jsval list \<times> jsnum)"
  and decodeMapItems ::
    "(jsval \<Rightarrow> byte list) \<Rightarrow> nat \<Rightarrow> nat \<Rightarrow> byte list \<Rightarrow> jsnum
       \<Rightarrow> (byte list \<times> jsval) list \<Rightarrow> cbor_error + ((byte list \<times> jsval) list \<times> jsnum)"
where
  "decodeValue keyOf 0 buf offset = Inl StackOverflow"
| "decodeValue keyOf (Suc depth) buf offset =
     (if numGreaterEq offset (length buf) then Inl UnexpectedEnd
      else
        (let initialByte = byteInt (getByte buf offset);
             majorType = js_and (js_shr initialByte 5) 0x07
         in if majorType = UNSIGNED_INT then decodeUnsignedInt buf offset
            else if majorType = NEGATIVE_INT then
              (case decodeUnsignedInt buf offset of
                 Inl e \<Rightarrow> Inl e
               | Inr (v, off) \<Rightarrow> Inr (negateMinusOne v, off))
            else if majorType = BYTE_STRING then decodeByteString buf offset
            else if majorType = TEXT_STRING then decodeTextString buf offset
            else if majorType = ARRAY then
              (case decodeLength buf offset of
                 Inl e \<Rightarrow> Inl e
               | Inr (len, off) \<Rightarrow>
                   (case decodeArrayItems keyOf depth (loopCount len) buf off of
                      Inl e \<Rightarrow> Inl e
                    | Inr (items, off') \<Rightarrow> Inr (JArr items, off')))
            else if majorType = MAP then
              (case decodeLength buf offset of
                 Inl e \<Rightarrow> Inl e
               | Inr (len, off) \<Rightarrow>
                   (case decodeMapItems keyOf depth (loopCount len) buf off [] of
                      Inl e \<Rightarrow> Inl e
                    | Inr (entries, off') \<Rightarrow> Inr (JObj entries, off')))
            else if majorType = TAG then
              (case decodeLength buf offset of
                 Inl e \<Rightarrow> Inl e
               | Inr (tag, off) \<Rightarrow>
                   (case decodeValue keyOf depth buf off of
                      Inl e \<Rightarrow> Inl e
                    | Inr (v, off') \<Rightarrow>
                        Inr (JObj [([0x74, 0x61, 0x67], tag), ([0x76, 0x61, 0x6C, 0x75, 0x65], v)],
                             off')))
            else decodeFloatSimple buf offset))"
| "decodeArrayItems keyOf depth 0 buf offset = Inr ([], offset)"
| "decodeArrayItems keyOf depth (Suc n) buf offset =
     (case decodeValue keyOf depth buf offset of
        Inl e \<Rightarrow> Inl e
      | Inr (v, off) \<Rightarrow>
          (case decodeArrayItems keyOf depth n buf off of
             Inl e \<Rightarrow> Inl e
           | Inr (vs, off') \<Rightarrow> Inr (v # vs, off')))"
| "decodeMapItems keyOf depth 0 buf offset acc = Inr (acc, offset)"
| "decodeMapItems keyOf depth (Suc n) buf offset acc =
     (case decodeValue keyOf depth buf offset of
        Inl e \<Rightarrow> Inl e
      | Inr (k, off) \<Rightarrow>
          (case decodeValue keyOf depth buf off of
             Inl e \<Rightarrow> Inl e
           | Inr (v, off') \<Rightarrow> decodeMapItems keyOf depth n buf off' (setProperty acc (keyOf k) v)))"
  by pat_completeness auto
termination
  by (relation "inv_image (less_than <*lex*> less_than)
        (\<lambda>x. case x of
           Inl (keyOf, depth, buf, offset) \<Rightarrow> (depth, 0)
         | Inr (Inl (keyOf, depth, n, buf, offset)) \<Rightarrow> (depth, Suc n)
         | Inr (Inr (keyOf, depth, n, buf, offset, acc)) \<Rightarrow> (depth, Suc n))") auto

definition decode :: "(jsval \<Rightarrow> byte list) \<Rightarrow> nat \<Rightarrow> byte list \<Rightarrow> cbor_error + jsval" where
  "decode keyOf depth bytes =
     (case decodeValue keyOf depth bytes (Some 0) of Inl e \<Rightarrow> Inl e | Inr (v, off) \<Rightarrow> Inr v)"
section \<open>CoAP message codec (class CoAPClient)\<close>

subsection \<open>Options as the caller gives them\<close>

text \<open>The \<open>options\<close> argument is an object; the model takes its entries in the order
  \<open>Object.entries\<close> lists them, with keys of byte-valued characters. A value is a string
  (held as its UTF-8 bytes), a number that is an integer, or a \<open>Uint8Array\<close>: the three
  branches of the source. The entry named \<open>payload\<close> is the payload. (An object payload
  goes through the class's \<open>encodeCBOR\<close> helper before it is sent; payloads are opaque
  bytes at this layer and that helper is left out.)\<close>

datatype option_value = OString "byte list" | ONumber int | OBytes "byte list"

type_synonym coap_options = "(string \<times> option_value) list"

text \<open>The one exception the encoder raises is a \<open>RangeError\<close>: from a typed array of
  negative length, and from a call with more arguments than the engine takes.\<close>

datatype coap_error = RangeError

text \<open>What the source leaves to the JavaScript engine: the order \<open>Array.prototype.sort\<close>
  gives when the comparator is not consistent, and the number of arguments one call
  accepts, which bounds every \<open>push(...bytes)\<close> (taken to be the same at the four calls of
  \<open>createMessage\<close> and \<open>encodeOptions\<close>).\<close>

record js_engine =
  engine_sort :: "(jsnumber \<times> option_value) list \<Rightarrow> (jsnumber \<times> option_value) list"
  engine_maxArgs :: nat

text \<open>\<open>String.prototype.toLowerCase\<close> on characters below 256: the letters A to Z and the
  capital letters of Latin-1.\<close>

definition toLowerCase :: "string \<Rightarrow> string" where
  "toLowerCase s =
     map (\<lambda>c. let n = (of_char c :: nat) in
               if (65 \<le> n \<and> n \<le> 90) \<or> (192 \<le> n \<and> n \<le> 222 \<and> n \<noteq> 215)
               then char_of (n + 32) else c) s"

definition optionMap :: "(string \<times> int) list" where
  "optionMap =
     [(''uri-path'', 11), (''uri-query'', 15), (''content-format'', 12), (''accept'', 17),
      (''uri-host'', 3), (''uri-port'', 7)]"

text \<open>\<open>optionMap[name.toLowerCase()] || parseInt(name)\<close>. The names reach this function as
  keys of \<open>Object.entries\<close>, which are strings, so the branch for a name of type number is
  never taken from \<open>encodeOptions\<close>. For the two names that \<open>optionMap\<close> inherits
  (\<open>constructor\<close>, \<open>__proto__\<close>) the lookup gives an object, which every subtraction on the
  option number turns into NaN; \<open>parseInt\<close> of those names is NaN too, so NaN stands for
  both.\<close>

definition getOptionNumber :: "string \<Rightarrow> jsnumber" where
  "getOptionNumber name =
     (case map_of optionMap (toLowerCase name) of
        Some n \<Rightarrow> Num n
      | None \<Rightarrow> parseInt (map of_char name) None)"

definition encodeNumber :: "int \<Rightarrow> byte list" where
  "encodeNumber num =
     (if num = 0 then []
      else if num < 256 then [toUint8 num]
      else if num < 65536 then [toUint8 (js_shr num 8), toUint8 (js_and num 0xFF)]
      else [toUint8 (js_shr num 24), toUint8 (js_and (js_shr num 16) 0xFF),
            toUint8 (js_and (js_shr num 8) 0xFF), toUint8 (js_and num 0xFF)])"

definition optionValueBytes :: "option_value \<Rightarrow> byte list" where
  "optionValueBytes v =
     (case v of OString s \<Rightarrow> s | ONumber n \<Rightarrow> encodeNumber n | OBytes bs \<Rightarrow> bs)"

subsection \<open>Arithmetic on option numbers\<close>

text \<open>\<open>a - b\<close> on numbers: the difference of two integers is rounded to the nearest
  binary64 value; NaN and the infinities follow IEEE 754.\<close>

fun numMinus :: "jsnumber \<Rightarrow> jsnumber \<Rightarrow> jsnumber" where
  "numMinus (Num x) (Num y) = toNumber (x - y)"
| "numMinus NaN b = NaN"
| "numMinus a NaN = NaN"
| "numMinus PosInfinity PosInfinity = NaN"
| "numMinus NegInfinity NegInfinity = NaN"
| "numMinus PosInfinity b = PosInfinity"
| "numMinus NegInfinity b = NegInfinity"
| "numMinus (Num x) PosInfinity = NegInfinity"
| "numMinus (Num x) NegInfinity = PosInfinity"

text \<open>\<open>a < c\<close> for an integer \<open>c\<close>: false for NaN.\<close>

definition numLess :: "jsnumber \<Rightarrow> int \<Rightarrow> bool" where
  "numLess a c =
     (case a of Num x \<Rightarrow> x < c | NegInfinity \<Rightarrow> True | PosInfinity \<Rightarrow> False | NaN \<Rightarrow> False)"

text \<open>The integer of a number where the source hands it to a bitwise operator or stores it
  in the output array: NaN and the infinities count as 0 there (\<open>ToInt32\<close>, \<open>ToUint8\<close>); a
  finite number goes on with its value, which the operator or the array then reduces.\<close>

definition numInt :: "jsnumber \<Rightarrow> int" where
  "numInt a = (case a of Num x \<Rightarrow> x | _ \<Rightarrow> 0)"

subsection \<open>encodeOptions\<close>

text \<open>The numbers pushed for one option header, from its delta and value length.\<close>

definition lengthNibble :: "int \<Rightarrow> int" where
  "lengthNibble len = (if len < 13 then len else if len < 269 then 13 else 14)"

definition optionHeader :: "jsnumber \<Rightarrow> int \<Rightarrow> int list" where
  "optionHeader delta len =
     (if numLess delta 13 \<and> len < 13 then [js_or (js_shl (numInt delta) 4) len]
      else
        (if numLess delta 13 then []
         else if numLess delta 269 then
           [js_or (js_shl 13 4) (lengthNibble len), numInt (numMinus delta (Num 13))]
         else [js_or (js_shl 14 4) (lengthNibble len),
               js_shr (numInt (numMinus delta (Num 269))) 8,
               js_and (numInt (numMinus delta (Num 269))) 0xFF])
        @ (if numLess delta 13 then
             (let headerByte = js_shl (numInt delta) 4 in
              if len < 13 then [js_or headerByte len]
              else if len < 269 then [js_or headerByte 13, len - 13]
              else [js_or headerByte 14, js_shr (len - 269) 8, js_and (len - 269) 0xFF])
           else if len \<ge> 269 then [js_shr (len - 269) 8, js_and (len - 269) 0xFF]
           else if len \<ge> 13 then [len - 13]
           else []))"

text \<open>The loop over the sorted options; \<open>lastOptionNumber\<close> is the first argument.\<close>

fun encodeSorted :: "jsnumber \<Rightarrow> (jsnumber \<times> option_value) list \<Rightarrow> int list" where
  "encodeSorted lastOptionNumber [] = []"
| "encodeSorted lastOptionNumber ((number, v) # rest) =
     (let delta = numMinus number lastOptionNumber;
          valueBytes = optionValueBytes v
      in optionHeader delta (int (length valueBytes)) @ map uint valueBytes
           @ encodeSorted number rest)"

text \<open>The entries but \<open>payload\<close>, each with its option number.\<close>

definition numberedOptions :: "coap_options \<Rightarrow> (jsnumber \<times> option_value) list" where
  "numberedOptions options =
     map (\<lambda>(key, v). (getOptionNumber key, v))
       (filter (\<lambda>(key, v). key \<noteq> ''payload'') options)"

text \<open>\<open>.sort((a, b) => a.number - b.number)\<close>. The sort reads the sign of the comparator's
  result and takes NaN for 0.\<close>

definition compareSign :: "jsnumber \<Rightarrow> jsnumber \<Rightarrow> int" where
  "compareSign a b =
     (case numMinus a b of
        Num d \<Rightarrow> sgn d | PosInfinity \<Rightarrow> 1 | NegInfinity \<Rightarrow> - 1 | NaN \<Rightarrow> 0)"

text \<open>The standard fixes the result of \<open>sort\<close> when the comparator is consistent on the
  elements (equality by the comparator is reflexive, symmetric and transitive, and so are
  less and greater): it is then the stable sort, here by insertion from the right. With a
  comparator that is not consistent (a NaN among different numbers) the order is the
  engine's.\<close>

definition consistentComparator :: "jsnumber list \<Rightarrow> bool" where
  "consistentComparator ns =
     (\<forall>a \<in> set ns. \<forall>b \<in> set ns. \<forall>c \<in> set ns.
        compareSign a a = 0 \<and>
        (compareSign a b = 0 \<longrightarrow> compareSign b a = 0) \<and>
        (compareSign a b = 0 \<and> compareSign b c = 0 \<longrightarrow> compareSign a c = 0) \<and>
        (compareSign a b < 0 \<and> compareSign b c < 0 \<longrightarrow> compareSign a c < 0) \<and>
        (compareSign a b > 0 \<and> compareSign b c > 0 \<longrightarrow> compareSign a c > 0))"

fun insertSorted ::
  "jsnumber \<times> option_value \<Rightarrow> (jsnumber \<times> option_value) list \<Rightarrow> (jsnumber \<times> option_value) list" where
  "insertSorted x [] = [x]"
| "insertSorted x (y # ys) =
     (if compareSign (fst x) (fst y) > 0 then y # insertSorted x ys else x # y # ys)"

definition stableSort :: "(jsnumber \<times> option_value) list \<Rightarrow> (jsnumber \<times> option_value) list" where
  "stableSort xs = foldr insertSorted xs []"

definition sortedOptions :: "js_engine \<Rightarrow> coap_options \<Rightarrow> (jsnumber \<times> option_value) list" where
  "sortedOptions engine options =
     (let numbered = numberedOptions options in
      if consistentComparator (map fst numbered) then stableSort numbered
      else engine_sort engine numbered)"

text \<open>\<open>encodeOptions\<close>: \<open>encoded.push(...valueBytes)\<close> throws as soon as one value has more
  bytes than a call takes arguments.\<close>

definition encodeOptions :: "js_engine \<Rightarrow> coap_options \<Rightarrow> coap_error + int list" where
  "encodeOptions engine options =
     (let sortedOpts = sortedOptions engine options in
      if list_ex (\<lambda>(number, v). length (optionValueBytes v) > engine_maxArgs engine) sortedOpts
      then Inl RangeError
      else Inr (encodeSorted (Num 0) sortedOpts))"

subsection \<open>createMessage\<close>

record created_message =
  created_bytes :: "byte list"
  created_messageId :: int
  created_token :: "byte list"
  next_messageId :: int

text \<open>\<open>generateToken\<close>: four draws of \<open>Math.floor(Math.random() * 256)\<close>, given by \<open>rnd\<close>.\<close>

definition generateToken :: "(nat \<Rightarrow> byte) \<Rightarrow> byte list" where
  "generateToken rnd = map rnd [0..<4]"

definition truthy :: "option_value \<Rightarrow> bool" where
  "truthy v = (case v of OString s \<Rightarrow> s \<noteq> [] | ONumber n \<Rightarrow> n \<noteq> 0 | OBytes bs \<Rightarrow> True)"

text \<open>The payload bytes: a \<open>Uint8Array\<close> as it is, a string encoded, and for a number
  \<open>n\<close> the array \<open>new Uint8Array(n)\<close> of \<open>n\<close> zeros, which throws for a negative \<open>n\<close>.
  (It throws for an \<open>n\<close> beyond the engine's largest array as well; such an array has
  more elements than a call takes arguments, so the \<open>push\<close> that follows gives the same
  \<open>RangeError\<close> in the model.)\<close>

definition payloadBytes :: "option_value \<Rightarrow> coap_error + byte list" where
  "payloadBytes v =
     (case v of
        OBytes bs \<Rightarrow> Inr bs
      | OString s \<Rightarrow> Inr s
      | ONumber n \<Rightarrow> if n < 0 then Inl RangeError else Inr (replicate (nat n) 0))"

text \<open>\<open>message.push(...bytes)\<close>: the bytes are appended unless there are more of them than
  a call takes arguments.\<close>

definition pushAll :: "js_engine \<Rightarrow> int list \<Rightarrow> int list \<Rightarrow> coap_error + int list" where
  "pushAll engine message bytes =
     (if length bytes > engine_maxArgs engine then Inl RangeError else Inr (message @ bytes))"

text \<open>\<open>createMessage(type, code, options)\<close>. The counter \<open>this.messageId\<close> is the third
  argument; its new value is returned in \<open>next_messageId\<close>.\<close>

definition createMessage ::
  "js_engine \<Rightarrow> (nat \<Rightarrow> byte) \<Rightarrow> int \<Rightarrow> int \<Rightarrow> int \<Rightarrow> coap_options
     \<Rightarrow> coap_error + created_message" where
  "createMessage engine rnd counter type code options =
     (let messageId = counter;
          token = generateToken rnd;
          tokenLength = int (length token);
          version = 1;
          byte0 = js_or (js_or (js_shl version 6) (js_shl type 4)) tokenLength;
          header = [byte0, code, js_and (js_shr messageId 8) 0xFF, js_and messageId 0xFF]
      in case (if tokenLength > 0 then pushAll engine header (map uint token) else Inr header) of
           Inl e \<Rightarrow> Inl e
         | Inr message1 \<Rightarrow>
         (case encodeOptions engine options of
           Inl e \<Rightarrow> Inl e
         | Inr optionBytes \<Rightarrow>
         (case (if length optionBytes > 0 then pushAll engine message1 optionBytes
                else Inr message1) of
           Inl e \<Rightarrow> Inl e
         | Inr message2 \<Rightarrow>
         (case (case map_of options ''payload'' of
                  None \<Rightarrow> Inr message2
                | Some p \<Rightarrow>
                    if truthy p then
                      (case payloadBytes p of
                         Inl e \<Rightarrow> Inl e
                       | Inr bs \<Rightarrow> pushAll engine (message2 @ [0xFF]) (map uint bs))
                    else Inr message2) of
           Inl e \<Rightarrow> Inl e
         | Inr message3 \<Rightarrow>
             Inr \<lparr>created_bytes = map toUint8 message3,
                  created_messageId = messageId, created_token = token,
                  next_messageId = counter + 1\<rparr>))))"

subsection \<open>parseOptions and parseMessage\<close>

text \<open>Offsets and option numbers of the parser are non-negative integers or NaN (\<open>None\<close>):
  an element read past the end is \<open>undefined\<close>, and adding it gives NaN.\<close>

definition readByte :: "byte list \<Rightarrow> nat \<Rightarrow> nat option" where
  "readByte buf i = (if i < length buf then Some (unat (buf ! i)) else None)"

fun showNat :: "nat \<Rightarrow> string" where
  "showNat n =
     (if n < 10 then [char_of (48 + n)] else showNat (n div 10) @ [char_of (48 + n mod 10)])"

declare showNat.simps [simp del]

definition reverseMap :: "(nat \<times> string) list" where
  "reverseMap =
     [(11, ''uri-path''), (15, ''uri-query''), (12, ''content-format''), (17, ''accept''),
      (3, ''uri-host''), (7, ''uri-port'')]"

definition getOptionName :: "nat option \<Rightarrow> string" where
  "getOptionName number =
     (case number of
        None \<Rightarrow> ''option-NaN''
      | Some n \<Rightarrow> (case map_of reverseMap n of Some name \<Rightarrow> name | None \<Rightarrow> ''option-'' @ showNat n))"

text \<open>\<open>if (!options[name]) options[name] = []; options[name].push(value)\<close>.\<close>

fun addOption ::
  "(string \<times> byte list list) list \<Rightarrow> string \<Rightarrow> byte list \<Rightarrow> (string \<times> byte list list) list" where
  "addOption [] name v = [(name, [v])]"
| "addOption ((k, vs) # rest) name v =
     (if k = name then (k, vs @ [v]) # rest else (k, vs) # addOption rest name v)"

text \<open>The extended forms of a nibble: the value and the offset after it.\<close>

definition extendNibble :: "byte list \<Rightarrow> nat \<Rightarrow> nat \<Rightarrow> nat option \<times> nat" where
  "extendNibble buf nibble offset =
     (if nibble = 13 then (map_option (\<lambda>b. 13 + b) (readByte buf offset), offset + 1)
      else if nibble = 14 then
        ((case (readByte buf offset, readByte buf (offset + 1)) of
            (Some hi, Some lo) \<Rightarrow> Some (269 + hi * 256 + lo)
          | _ \<Rightarrow> None),
         offset + 2)
      else (Some nibble, offset))"

definition numPlus :: "nat option \<Rightarrow> nat option \<Rightarrow> nat option" where
  "numPlus a b = (case (a, b) of (Some x, Some y) \<Rightarrow> Some (x + y) | _ \<Rightarrow> None)"

function parseOptions ::
  "byte list \<Rightarrow> nat option \<Rightarrow> nat option \<Rightarrow> (string \<times> byte list list) list
     \<Rightarrow> (string \<times> byte list list) list \<times> nat option" where
  "parseOptions buf offset currentOption options =
     (case offset of
        None \<Rightarrow> (options, None)
      | Some off \<Rightarrow>
          if off < length buf \<and> buf ! off \<noteq> 0xFF then
            (let byte = buf ! off;
                 delta0 = unat (drop_bit 4 byte AND 0x0F);
                 length0 = unat (byte AND 0x0F)
             in if delta0 = 15 then (options, Some (off + 1))
                else
                  (let (delta, off2) = extendNibble buf delta0 (off + 1)
                   in if length0 = 15 then (options, Some off2)
                      else
                        (let (len, off3) = extendNibble buf length0 off2;
                             currentOption' = numPlus currentOption delta;
                             v = (case len of None \<Rightarrow> [] | Some l \<Rightarrow> slice buf off3 (off3 + l));
                             options' = addOption options (getOptionName currentOption') v
                         in parseOptions buf (map_option (\<lambda>l. off3 + l) len) currentOption'
                              options')))
          else (options, offset))"
  by pat_completeness auto
termination
proof (relation "measure (\<lambda>(buf, offset, currentOption, options).
    case offset of None \<Rightarrow> 0 | Some off \<Rightarrow> Suc (length buf - off))", goal_cases)
  case 1
  show ?case by simp
next
  case (2 buf offset currentOption options off byte delta0 length0 x delta off2 y len off3)
  then have "off + 1 \<le> off2" "off2 \<le> off3"
    by (auto simp: extendNibble_def split: if_splits)
  with 2 show ?case by (auto split: option.splits)
qed

declare parseOptions.simps [simp del]

record coap_message =
  msg_version :: int
  msg_type :: int
  msg_code :: "int option"
  msg_codeClass :: int
  msg_codeDetail :: int
  msg_messageId :: int
  msg_token :: "byte list"
  msg_options :: "(string \<times> byte list list) list"
  msg_payload :: "byte list option"

definition optInt :: "nat option \<Rightarrow> int" where
  "optInt b = (case b of None \<Rightarrow> 0 | Some x \<Rightarrow> int x)"

definition parseMessage :: "byte list \<Rightarrow> coap_message" where
  "parseMessage buf =
     (let byte0 = optInt (readByte buf 0);
          version = js_and (js_shr byte0 6) 0x03;
          type = js_and (js_shr byte0 4) 0x03;
          tokenLength = nat (js_and byte0 0x0F);
          code = map_option int (readByte buf 1);
          codeClass = js_and (js_shr (optInt (readByte buf 1)) 5) 0x07;
          codeDetail = js_and (optInt (readByte buf 1)) 0x1F;
          messageId = js_or (js_shl (optInt (readByte buf 2)) 8) (optInt (readByte buf 3));
          token = (if tokenLength > 0 then slice buf 4 (4 + tokenLength) else []);
          (options, newOffset) = parseOptions buf (Some (4 + tokenLength)) (Some 0) [];
          payload =
            (case newOffset of
               None \<Rightarrow> None
             | Some offset \<Rightarrow>
                 if offset < length buf \<and> buf ! offset = 0xFF then Some (drop (offset + 1) buf)
                 else None)
      in \<lparr>msg_version = version, msg_type = type, msg_code = code,
          msg_codeClass = codeClass, msg_codeDetail = codeDetail, msg_messageId = messageId,
          msg_token = token, msg_options = options, msg_payload = payload\<rparr>)"

section \<open>The binary MUP1 class (second class named MUP1Protocol)\<close>

text \<open>This class frames CoAP bytes behind a fixed binary header and keeps a receive buffer
  \<open>frameBuffer\<close>. Its members that share a name with the first class carry the suffix
  \<open>_v2\<close>.\<close>

text \<open>\<open>sum = (sum + data[i]) & 0xFFFF\<close> over the data, from the running sum \<open>s\<close>.\<close>

fun calculateChecksum_v2 :: "int \<Rightarrow> byte list \<Rightarrow> int" where
  "calculateChecksum_v2 s [] = s"
| "calculateChecksum_v2 s (b # bs) = calculateChecksum_v2 (js_and (s + uint b) 0xFFFF) bs"

text \<open>\<open>packFrame(payload, messageType)\<close>; \<open>messageType\<close> is not used by the source. The
  counter \<open>this.messageId\<close> is the first argument and its new value the second result.\<close>

definition packFrame :: "int \<Rightarrow> byte list \<Rightarrow> byte list \<times> int" where
  "packFrame messageId payload =
     (let header = [0x40, 0x05];
          msgId = [toUint8 (js_and (js_shr messageId 8) 0xFF), toUint8 (js_and messageId 0xFF)];
          checksum = calculateChecksum_v2 0 payload
      in (header @ msgId @ [0xB1, 0x63]
            @ [toUint8 (js_and (js_shr checksum 8) 0xFF), toUint8 (js_and checksum 0xFF)]
            @ [0x33, 0x64, 0x3D, 0x61] @ [0x21, 0x8E, 0xFF] @ payload,
          messageId + 1))"

text \<open>\<open>unpackFrame\<close>: everything after the first \<open>0xFF\<close> that is not the last byte;
  \<open>null\<close> (\<open>None\<close>) when there is none.\<close>

fun unpackFrame :: "byte list \<Rightarrow> byte list option" where
  "unpackFrame [] = None"
| "unpackFrame [b] = None"
| "unpackFrame (b # c # rest) = (if b = 0xFF then Some (c # rest) else unpackFrame (c # rest))"

text \<open>The loop of \<open>extractFrames\<close> from index \<open>i\<close>: at the first \<open>0x60 0x45\<close> whose slice
  unpacks, that one payload is the result and the buffer loses its first \<open>i + 32\<close> bytes.
  The results are the frames and the new \<open>frameBuffer\<close>.\<close>

function extractFrom :: "byte list \<Rightarrow> nat \<Rightarrow> byte list list \<times> byte list" where
  "extractFrom frameBuffer i =
     (if i + 1 < length frameBuffer then
        (if frameBuffer ! i = 0x60 \<and> frameBuffer ! (i + 1) = 0x45 then
           (case unpackFrame (drop i frameBuffer) of
              Some payload \<Rightarrow> ([payload], drop (i + 32) frameBuffer)
            | None \<Rightarrow> extractFrom frameBuffer (i + 1))
         else extractFrom frameBuffer (i + 1))
      else ([], frameBuffer))"
  by pat_completeness auto
termination
  by (relation "measure (\<lambda>(frameBuffer, i). length frameBuffer - i)") auto

declare extractFrom.simps [simp del]

definition extractFrames :: "byte list \<Rightarrow> byte list list \<times> byte list" where
  "extractFrames frameBuffer = extractFrom frameBuffer 0"

definition processData :: "byte list \<Rightarrow> byte list \<Rightarrow> byte list list \<times> byte list" where
  "processData frameBuffer chunk = extractFrames (frameBuffer @ chunk)"

text \<open>Feeding chunks one call at a time: the frames of every call, in order, and the
  buffer left at the end.\<close>

fun feedChunks :: "byte list \<Rightarrow> byte list list \<Rightarrow> byte list list \<times> byte list" where
  "feedChunks frameBuffer [] = ([], frameBuffer)"
| "feedChunks frameBuffer (chunk # chunks) =
     (let (frames, frameBuffer') = processData frameBuffer chunk;
          (frames', frameBuffer'') = feedChunks frameBuffer' chunks
      in (frames @ frames', frameBuffer''))"
section \<open>The CoAP message as the specification describes it\<close>

text \<open>The definitions of this section are not taken from the source. They say, in the
  words of the specification (the data model of a CoAP message and the wire format of
  RFC 7252 it refers to), what a caller's options stand for, what the options and the
  payload of a message look like on the wire, and what a decoded message holds. The
  statements on the codec compare the source with them.\<close>

subsection \<open>What the entries of an options object stand for\<close>

text \<open>The six options the interface knows by name, with their numbers.\<close>

definition spec_registry :: "(nat \<times> string) list" where
  "spec_registry =
     [(3, ''uri-host''), (7, ''uri-port''), (11, ''uri-path''), (12, ''content-format''),
      (15, ''uri-query''), (17, ''accept'')]"

text \<open>The decimal numeral of a number.\<close>

fun spec_decimal :: "nat \<Rightarrow> string" where
  "spec_decimal n =
     (if n < 10 then [char_of (48 + n)]
      else spec_decimal (n div 10) @ [char_of (48 + n mod 10)])"

declare spec_decimal.simps [simp del]

text \<open>A key names the option number \<open>n\<close> when it is the registered name of \<open>n\<close> or the
  decimal numeral of \<open>n\<close> (the numeric pass-through).\<close>

definition spec_keyNames :: "string \<Rightarrow> nat \<Rightarrow> bool" where
  "spec_keyNames key n = (map_of spec_registry n = Some key \<or> key = spec_decimal n)"

text \<open>An option value given as a number below \<open>2^32\<close> is sent big-endian in 0, 1, 2 or 4
  bytes (0 bytes for the value 0); a string is sent as its UTF-8 bytes and raw bytes as
  they are.\<close>

definition spec_uintBytes :: "nat \<Rightarrow> byte list" where
  "spec_uintBytes x =
     (if x = 0 then []
      else if x < 256 then [of_nat x]
      else if x < 65536 then [of_nat (x div 256), of_nat x]
      else [of_nat (x div 16777216), of_nat (x div 65536), of_nat (x div 256), of_nat x])"

definition spec_valueBytes :: "option_value \<Rightarrow> byte list option" where
  "spec_valueBytes v =
     (case v of
        OString s \<Rightarrow> Some s
      | OBytes bs \<Rightarrow> Some bs
      | ONumber x \<Rightarrow> if 0 \<le> x \<and> x < 4294967296 then Some (spec_uintBytes (nat x)) else None)"

text \<open>An entry of the options object stands for an option of the message: a number and a
  byte string.\<close>

definition spec_entry :: "string \<times> option_value \<Rightarrow> nat \<times> byte list \<Rightarrow> bool" where
  "spec_entry e opt = (spec_keyNames (fst e) (fst opt) \<and> spec_valueBytes (snd e) = Some (snd opt))"

text \<open>The payload a caller gives: none when there is no \<open>payload\<close> entry or when it is the
  empty string or 0; the bytes of a byte array (also an empty one) or of a string; for a
  positive number \<open>n\<close>, \<open>n\<close> zero bytes.\<close>

definition spec_payload :: "option_value option \<Rightarrow> byte list option" where
  "spec_payload p =
     (case p of
        None \<Rightarrow> None
      | Some (OBytes bs) \<Rightarrow> Some bs
      | Some (OString s) \<Rightarrow> if s = [] then None else Some s
      | Some (ONumber n) \<Rightarrow> if n \<le> 0 then None else Some (replicate (nat n) 0))"

subsection \<open>Options on the wire\<close>

text \<open>A delta or a length below 13 is the nibble itself; from 13 to 268 the nibble is 13
  and one byte holds the value minus 13; from 269 on the nibble is 14 and two bytes hold
  the value minus 269, big-endian.\<close>

definition spec_nibble :: "nat \<Rightarrow> nat" where
  "spec_nibble x = (if x < 13 then x else if x < 269 then 13 else 14)"

definition spec_ext :: "nat \<Rightarrow> byte list" where
  "spec_ext x =
     (if x < 13 then []
      else if x < 269 then [of_nat (x - 13)]
      else [of_nat ((x - 269) div 256), of_nat (x - 269)])"

text \<open>One option: the header byte, the extended delta, the extended length, the value.\<close>

definition spec_option :: "nat \<Rightarrow> byte list \<Rightarrow> byte list" where
  "spec_option delta v =
     of_nat (16 * spec_nibble delta + spec_nibble (length v))
       # spec_ext delta @ spec_ext (length v) @ v"

text \<open>The options of a message, in ascending order of number, each with the difference
  to the number before it (to \<open>prev\<close> for the first).\<close>

fun spec_options :: "nat \<Rightarrow> (nat \<times> byte list) list \<Rightarrow> byte list" where
  "spec_options prev [] = []"
| "spec_options prev ((n, v) # rest) = spec_option (n - prev) v @ spec_options n rest"

text \<open>A message on the wire: the first byte holds the version 1, the type and the length
  of the token; then come the code, the message ID big-endian, the token, the options
  and, when there is a payload, the marker \<open>0xFF\<close> and the payload.\<close>

definition spec_message ::
  "nat \<Rightarrow> nat \<Rightarrow> nat \<Rightarrow> byte list \<Rightarrow> (nat \<times> byte list) list \<Rightarrow> byte list option
     \<Rightarrow> byte list" where
  "spec_message type code messageId token opts payload =
     [of_nat (64 + 16 * type + length token), of_nat code, of_nat (messageId div 256),
      of_nat messageId]
     @ token @ spec_options 0 opts
     @ (case payload of None \<Rightarrow> [] | Some bs \<Rightarrow> 0xFF # bs)"

subsection \<open>The options of a decoded message\<close>

text \<open>The option numbers of a list in the order of their first occurrence.\<close>

fun spec_firsts :: "nat list \<Rightarrow> nat list" where
  "spec_firsts [] = []"
| "spec_firsts (n # ns) = n # filter (\<lambda>k. k \<noteq> n) (spec_firsts ns)"

text \<open>The name under which a decoded message holds the option number \<open>n\<close>.\<close>

definition spec_optionName :: "nat \<Rightarrow> string" where
  "spec_optionName n =
     (case map_of spec_registry n of Some name \<Rightarrow> name | None \<Rightarrow> ''option-'' @ spec_decimal n)"

text \<open>A decoded message holds, for each option number of the message, the values of the
  options with that number, in their order.\<close>

definition spec_grouped :: "(nat \<times> byte list) list \<Rightarrow> (string \<times> byte list list) list" where
  "spec_grouped opts =
     map (\<lambda>n. (spec_optionName n, map snd (filter (\<lambda>opt. fst opt = n) opts)))
       (spec_firsts (map fst opts))"

section \<open>Vocabulary of the statements on frames\<close>

text \<open>Every EOF in the list follows an ESCAPE (\<open>prev\<close> is the byte before the list).\<close>

fun guardedEOF :: "byte \<Rightarrow> byte list \<Rightarrow> bool" where
  "guardedEOF prev [] = True"
| "guardedEOF prev (x # xs) = ((if x = EOF then prev = ESCAPE else True) \<and> guardedEOF x xs)"

section \<open>Arithmetic of the bitwise operators on small non-negative numbers\<close>

lemma js_shr_nonneg: "0 \<le> x \<Longrightarrow> x < 2147483648 \<Longrightarrow> js_shr x k = x div 2 ^ k"
  by (simp add: js_shr_def toInt32_id)

lemma js_shl_small:
  assumes "0 \<le> x" "x * 2 ^ k < 2147483648"
  shows "js_shl x k = x * 2 ^ k"
proof -
  have p: "0 \<le> x * 2 ^ k" using assms(1) by simp
  have "x * 1 \<le> x * 2 ^ k" using assms(1) by (intro mult_left_mono) auto
  then have "x < 2147483648" using assms(2) by linarith
  then have "toInt32 x = x" using assms(1) by (intro toInt32_id) linarith+
  moreover have "toInt32 (x * 2 ^ k) = x * 2 ^ k" using assms(2) p by (intro toInt32_id) linarith+
  ultimately show ?thesis by (simp add: js_shl_def)
qed

lemma js_and_mask:
  assumes "0 \<le> x" "x < 2147483648" "k < 31"
  shows "js_and x (2 ^ k - 1) = x mod 2 ^ k"
proof -
  have m: "(2::int) ^ k - 1 = mask k" by (simp add: mask_eq_exp_minus_1)
  have "(2::int) ^ k \<le> 2 ^ 30" using assms(3) by (intro power_increasing) auto
  then have b: "(2::int) ^ k \<le> 1073741824" by simp
  have pos: "(0::int) < 2 ^ k" by simp
  from b pos have tm: "toInt32 (2 ^ k - 1) = 2 ^ k - 1" by (intro toInt32_id) linarith+
  have tx: "toInt32 x = x" using assms by (intro toInt32_id) linarith+
  have e: "x AND (2 ^ k - 1) = x mod 2 ^ k"
    unfolding m by (simp add: take_bit_eq_mod flip: take_bit_eq_mask)
  have r: "0 \<le> x mod 2 ^ k" "x mod 2 ^ k < 2 ^ k" by simp_all
  from r b have "toInt32 (x mod 2 ^ k) = x mod 2 ^ k" by (intro toInt32_id) linarith+
  then show ?thesis by (simp only: js_and_def tm tx e)
qed

lemmas js_and_FF = js_and_mask [where k = 8, simplified]
lemmas js_and_0F = js_and_mask [where k = 4, simplified]
lemmas js_and_1F = js_and_mask [where k = 5, simplified]
lemmas js_and_07 = js_and_mask [where k = 3, simplified]
lemmas js_and_03 = js_and_mask [where k = 2, simplified]

lemma js_or_disjoint:
  assumes "0 \<le> a" "0 \<le> b" "b < 2 ^ k" "a * 2 ^ k + b < 2147483648"
  shows "js_or (a * 2 ^ k) b = a * 2 ^ k + b"
proof -
  have p: "0 \<le> a * 2 ^ k" using assms(1) by simp
  have ta: "toInt32 (a * 2 ^ k) = a * 2 ^ k" using assms p by (intro toInt32_id) linarith+
  have tb: "toInt32 b = b" using assms p by (intro toInt32_id) linarith+
  have tk: "take_bit k b = b" using assms by (simp add: take_bit_int_eq_self)
  have "a * 2 ^ k OR b = push_bit k a OR take_bit k b" by (simp add: push_bit_eq_mult tk)
  also have "\<dots> = concat_bit k b a" by (simp add: concat_bit_def or.commute)
  also have "\<dots> = take_bit k b + push_bit k a" by (rule concat_bit_eq)
  finally have e: "a * 2 ^ k OR b = a * 2 ^ k + b"
    by (simp add: push_bit_eq_mult tk)
  have "toInt32 (a * 2 ^ k + b) = a * 2 ^ k + b" using assms p by (intro toInt32_id) linarith+
  then show ?thesis by (simp only: js_or_def ta tb e)
qed

lemma js_or_shl:
  assumes "0 \<le> a" "0 \<le> b" "b < 2 ^ k" "a * 2 ^ k + b < 2147483648"
  shows "js_or (js_shl a k) b = a * 2 ^ k + b"
proof -
  have "a * 2 ^ k < 2147483648" using assms by linarith
  then have "js_shl a k = a * 2 ^ k" using assms by (intro js_shl_small) auto
  then show ?thesis using assms by (simp add: js_or_disjoint)
qed

lemma toNumber_small: "\<bar>x\<bar> < 2 ^ 53 \<Longrightarrow> toNumber x = Num x"
proof -
  assume a: "\<bar>x\<bar> < 2 ^ 53"
  have "(2::int) ^ 53 \<le> 2 ^ 1024" by (rule power_increasing) simp_all
  with a have "x < 2 ^ 1024" "- (2 ^ 1024) < x" by linarith+
  with a show ?thesis by (simp add: toNumber_def roundDouble_def)
qed

section \<open>Bytes and nibbles\<close>

lemma uint_toUint8: "0 \<le> v \<Longrightarrow> v < 256 \<Longrightarrow> uint (toUint8 v) = v"
  by (simp add: toUint8_def uint_word_of_int)

lemma unat_toUint8: "0 \<le> v \<Longrightarrow> v < 256 \<Longrightarrow> unat (toUint8 v) = nat v"
  by (simp add: toUint8_def unat_eq_nat_uint uint_word_of_int)

lemma toUint8_uint: "toUint8 (uint b) = b"
  by (simp add: toUint8_def)

lemma unat_byte_less: "unat (w :: byte) < 256"
  using unsigned_less [of w, where ?'a = nat] by simp

lemma and_0F: "(w :: byte) AND 0x0F = take_bit 4 w"
proof -
  have "(0x0F :: byte) = mask 4" by (simp add: mask_eq_exp_minus_1)
  then show ?thesis by (simp only: take_bit_eq_mask)
qed

lemma low_nibble: "unat ((w :: byte) AND 0x0F) = unat w mod 16"
  by (simp add: and_0F take_bit_eq_mod unat_mod_distrib)

lemma high_nibble: "unat (drop_bit 4 (w :: byte) AND 0x0F) = unat w div 16"
proof -
  have "unat w div 16 < 16" using unat_byte_less [of w] by simp
  have "unat (drop_bit 4 w AND 0x0F) = unat (drop_bit 4 w) mod 16" by (rule low_nibble)
  also have "\<dots> = (unat w div 16) mod 16"
    by (simp add: drop_bit_eq_div unat_div_distrib)
  also have "\<dots> = unat w div 16"
    using \<open>unat w div 16 < 16\<close> by simp
  finally show ?thesis .
qed

section \<open>Properties of the MUP1 framing\<close>

lemmas js_eval = js_or_def js_shl_def js_shr_def js_and_def js_not_def toInt32_def
lemmas marker_defs = SOF_def EOF_def ESCAPE_def
lemmas hex_eval = checksumStr_def padStart4_def toString16.simps hexDigit_def

lemma foldCarry_small: "0 \<le> s \<Longrightarrow> s < 65536 \<Longrightarrow> foldCarry s = s"
  by (subst foldCarry.simps) (simp add: js_shr_small)

lemma unescapeData_plain: "b \<noteq> ESCAPE \<Longrightarrow> unescapeData (b # xs) = b # unescapeData xs"
  by (cases xs) auto

lemma unescapeDataSubst_plain:
  "b \<noteq> ESCAPE \<Longrightarrow> unescapeDataSubst (b # xs) = b # unescapeDataSubst xs"
  by (cases xs) auto

lemma unescape_escape: "unescapeData (escapeData d) = d"
  by (induction d) (auto simp: unescapeData_plain marker_defs)

lemma unescape_escape_subst: "unescapeDataSubst (escapeDataSubst d) = d"
  by (induction d) (auto simp: unescapeDataSubst_plain marker_defs)

text \<open>
  Claim C10. MUP1 payload escaping is left-invertible: for every byte array \<open>d\<close>,
  unescaping the escaped array gives \<open>d\<close> back, in the prefix scheme (ESCAPE before SOF, EOF
  and ESCAPE) and in the substitution scheme (which also maps \<open>0x00\<close> and \<open>0xFF\<close> to
  two-byte sequences).
\<close>

theorem C10_unescape_escape_both_schemes:
  "unescapeData (escapeData d) = d \<and> unescapeDataSubst (escapeDataSubst d) = d"
  by (simp add: unescape_escape unescape_escape_subst)

subsection \<open>The ping frame\<close>

lemma checksum_ping: "calculateChecksum [0x3E, 0x70, 0x3C] = 0x858F"
  by (simp add: calculateChecksum_def js_eval foldCarry_small)

lemma checksum_ping_subst: "calculateChecksum [0x3E, 0x70, 0x3C, 0x3C] = 0x8553"
  by (simp add: calculateChecksum_def js_eval foldCarry_small)

lemma str_858f: "checksumStr 0x858F = [0x38, 0x35, 0x38, 0x66]"
  by (simp add: hex_eval)

lemma str_8553: "checksumStr 0x8553 = [0x38, 0x35, 0x35, 0x33]"
  by (simp add: hex_eval)

text \<open>
  Claim C9. Packing a ping frame (type \<open>p\<close>, empty payload) should give the eight bytes
  \<open>>p<<8553\<close>: two end markers and the checksum \<open>0x8553\<close>. The copy of \<open>createFrame\<close>
  that doubles EOF by the parity of the payload length does so. The copy that tests
  \<open>(frame.length + 4) % 2\<close> finds \<open>7\<close> odd, pushes one EOF only, and returns the seven
  bytes \<open>>p<858f\<close>.
\<close>

theorem C9_ping_frame_bytes:
  "createPing = [0x3E, 0x70, 0x3C, 0x38, 0x35, 0x38, 0x66] \<and>
   createPingSubst = [0x3E, 0x70, 0x3C, 0x3C, 0x38, 0x35, 0x35, 0x33]"
  by (simp add: createPing_def createFrame_def createPingSubst_def createFrameSubst_def
      marker_defs checksum_ping checksum_ping_subst str_858f str_8553)

subsection \<open>Packing and parsing a payload that ends in the escape byte\<close>

lemma checksum_backslash: "calculateChecksum [0x3E, 0x63, 0x5C, 0x5C, 0x3C] = 0x2940"
  by (simp add: calculateChecksum_def js_eval foldCarry_small)

lemma checksum_backslash_subst: "calculateChecksum [0x3E, 0x63, 0x5C, 0x3C] = 0x6560"
  by (simp add: calculateChecksum_def js_eval foldCarry_small)

lemma str_2940: "checksumStr 0x2940 = [0x32, 0x39, 0x34, 0x30]"
  by (simp add: hex_eval)

lemma str_6560: "checksumStr 0x6560 = [0x36, 0x35, 0x36, 0x30]"
  by (simp add: hex_eval)

lemma createFrame_backslash:
  "createFrame CHR ''c'' [0x5C] = [0x3E, 0x63, 0x5C, 0x5C, 0x3C, 0x32, 0x39, 0x34, 0x30]"
  by (simp add: createFrame_def marker_defs checksum_backslash str_2940)

lemma createFrameSubst_backslash:
  "createFrameSubst CHR ''c'' [0x5C] = [0x3E, 0x63, 0x5C, 0x5C, 0x3C, 0x36, 0x35, 0x36, 0x30]"
  by (simp add: createFrameSubst_def marker_defs checksum_backslash_subst str_6560)

lemma findEnd_backslash:
  assumes "a \<noteq> EOF" "b \<noteq> EOF" "c \<noteq> EOF" "d \<noteq> EOF"
  shows "findEnd [0x3E, 0x63, 0x5C, 0x5C, 0x3C, a, b, c, d] (Suc 0) = None"
  using assms by (simp add: findEnd.simps marker_defs)

text \<open>
  Claim C3. Feeding the bytes of a packed frame to the parser should give one frame with
  the packed type, the original payload and a valid checksum. For the one-byte payload
  \<open>0x5C\<close> (the escape byte) and type \<open>c\<close>, both copies of the class send
  \<open>> c \ \ <\<close> and the checksum; the parser takes the EOF for an escaped byte, because the
  byte before it is ESCAPE, finds no end of frame and raises.
\<close>

theorem C3_roundtrip_backslash_payload:
  "parseFrame (createFrame CHR ''c'' [0x5C]) = Inl NoEndOfFrame \<and>
   parseFrameSubst (createFrameSubst CHR ''c'' [0x5C]) = Inl NoEndOfFrame"
  by (simp add: createFrame_backslash createFrameSubst_backslash parseFrame_def
      parseFrameSubst_def parseFrameWith_def findEnd_backslash marker_defs)

section \<open>Frames that do survive the round trip\<close>

text \<open>The checksum text is four hexadecimal digits, and \<open>parseInt\<close> with radix 16
  reads them back.\<close>

lemma unat_hexDigit: "d < 16 \<Longrightarrow> unat (hexDigit d) = (if d < 10 then 48 + d else 87 + d)"
proof -
  assume d: "d < 16"
  have "unat (of_nat (48 + d) :: byte) = 48 + d" "unat (of_nat (87 + d) :: byte) = 87 + d"
    using d by (simp_all only: unat_of_nat) simp_all
  then show ?thesis by (simp only: hexDigit_def split: if_splits) simp
qed

lemma digitVal_hexDigit: "d < 16 \<Longrightarrow> digitVal 16 (hexDigit d) = Some d"
  by (simp add: digitVal_def word_le_nat_alt unat_hexDigit)

lemma hexDigit_plain:
  assumes "d < 16"
  shows "\<not> isWhiteSpace (hexDigit d)" "hexDigit d \<noteq> 0x2D" "hexDigit d \<noteq> 0x2B"
    "hexDigit d \<noteq> 0x78" "hexDigit d \<noteq> 0x58" "hexDigit d \<noteq> EOF"
proof -
  have u: "unat (hexDigit d) \<in> {48..57} \<union> {97..102}"
    using assms by (simp add: unat_hexDigit)
  have ne: "\<And>k. k \<notin> {48..57} \<union> {97..102} \<Longrightarrow> k < 256 \<Longrightarrow> hexDigit d \<noteq> of_nat k"
  proof
    fix k :: nat assume k: "k \<notin> {48..57} \<union> {97..102}" "k < 256" and "hexDigit d = of_nat k"
    then have "unat (hexDigit d) = k" by (simp add: unat_of_nat)
    with u k show False by simp
  qed
  show "hexDigit d \<noteq> 0x2D" using ne [of 45] by simp
  show "hexDigit d \<noteq> 0x2B" using ne [of 43] by simp
  show "hexDigit d \<noteq> 0x78" using ne [of 120] by simp
  show "hexDigit d \<noteq> 0x58" using ne [of 88] by simp
  show "hexDigit d \<noteq> EOF" using ne [of 60] by (simp add: EOF_def)
  show "\<not> isWhiteSpace (hexDigit d)"
    using ne [of 9] ne [of 10] ne [of 11] ne [of 12] ne [of 13] ne [of 32] ne [of 160]
    by (simp add: isWhiteSpace_def)
qed

lemma toString16_small: "n < 16 \<Longrightarrow> toString16 n = [hexDigit n]"
  by (subst toString16.simps) simp

lemma toString16_step: "16 \<le> n \<Longrightarrow> toString16 n = toString16 (n div 16) @ [hexDigit (n mod 16)]"
  by (subst toString16.simps) simp

lemma hexDigit_zero: "hexDigit 0 = 0x30"
  by (simp add: hexDigit_def)

lemma padStart4_1: "padStart4 [a] = [0x30, 0x30, 0x30, a]"
  and padStart4_2: "padStart4 [a, b] = [0x30, 0x30, a, b]"
  and padStart4_3: "padStart4 [a, b, c] = [0x30, a, b, c]"
  and padStart4_4: "padStart4 [a, b, c, d] = [a, b, c, d]"
  by (simp_all add: padStart4_def numeral_eq_Suc)

lemma checksumStr_digits:
  assumes "0 \<le> c" "c < 65536"
  shows "checksumStr c
    = [hexDigit (nat c div 4096), hexDigit (nat c div 256 mod 16), hexDigit (nat c div 16 mod 16),
       hexDigit (nat c mod 16)]"
proof -
  define n where "n = nat c"
  have n: "n < 65536" using assms by (simp add: n_def)
  have b: "n div 16 div 16 = n div 256" "n div 16 div 16 div 16 = n div 4096"
    "n div 256 div 16 = n div 4096"
    by (simp_all add: div_mult2_eq)
  consider "n < 16" | "16 \<le> n" "n < 256" | "256 \<le> n" "n < 4096" | "4096 \<le> n" by linarith
  then have "padStart4 (toString16 n)
    = [hexDigit (n div 4096), hexDigit (n div 256 mod 16), hexDigit (n div 16 mod 16),
       hexDigit (n mod 16)]"
  proof cases
    case 1
    then have "toString16 n = [hexDigit n]" by (rule toString16_small)
    with 1 show ?thesis by (simp add: padStart4_1 hexDigit_zero)
  next
    case 2
    then have "n div 16 < 16" by simp
    with 2 have "toString16 n = [hexDigit (n div 16), hexDigit (n mod 16)]"
      by (simp add: toString16_step toString16_small)
    with 2 show ?thesis by (simp add: padStart4_2 hexDigit_zero)
  next
    case 3
    then have a: "16 \<le> n div 16" "n div 256 < 16" by simp_all
    with 3 have "toString16 n = [hexDigit (n div 256), hexDigit (n div 16 mod 16), hexDigit (n mod 16)]"
      by (simp add: toString16_step toString16_small b)
    with 3 a show ?thesis by (simp add: padStart4_3 hexDigit_zero)
  next
    case 4
    then have a: "16 \<le> n div 16" "16 \<le> n div 256" "n div 4096 < 16"
      using n by simp_all
    with 4 have "toString16 n = [hexDigit (n div 4096), hexDigit (n div 256 mod 16),
        hexDigit (n div 16 mod 16), hexDigit (n mod 16)]"
      by (simp add: toString16_step toString16_small b)
    then show ?thesis by (simp add: padStart4_4)
  qed
  then show ?thesis by (simp add: checksumStr_def n_def)
qed

lemma hex_value:
  fixes n :: nat
  shows "16 * (16 * (16 * (n div 4096) + n div 256 mod 16) + n div 16 mod 16) + n mod 16 = n"
proof -
  have a: "n div 256 = n div 16 div 16" "n div 4096 = n div 16 div 16 div 16"
    by (simp_all add: div_mult2_eq)
  have "16 * (n div 16 div 16 div 16) + n div 16 div 16 mod 16 = n div 16 div 16"
    by (rule mult_div_mod_eq)
  then have "16 * (16 * (n div 16 div 16 div 16) + n div 16 div 16 mod 16) + n div 16 mod 16
      = n div 16"
    by (simp only: mult_div_mod_eq)
  then have "16 * (16 * (16 * (n div 16 div 16 div 16) + n div 16 div 16 mod 16) + n div 16 mod 16)
      + n mod 16 = n"
    by (simp only: mult_div_mod_eq)
  then show ?thesis by (simp only: a)
qed

lemma parseInt_hex4:
  assumes "a < 16" "b < 16" "c < 16" "d < 16"
  shows "parseInt [hexDigit a, hexDigit b, hexDigit c, hexDigit d] (Some 16)
    = toNumber (int (16 * (16 * (16 * a + b) + c) + d))"
  using hexDigit_plain [OF assms(1)] hexDigit_plain [OF assms(2)]
    digitVal_hexDigit [OF assms(1)] digitVal_hexDigit [OF assms(2)]
    digitVal_hexDigit [OF assms(3)] digitVal_hexDigit [OF assms(4)]
  by (simp add: parseInt_def)

lemma parseInt_checksumStr:
  assumes "0 \<le> c" "c < 65536"
  shows "parseInt (checksumStr c) (Some 16) = Num c"
proof -
  define n where "n = nat c"
  have n: "n < 65536" "int n = c" using assms by (simp_all add: n_def)
  have d: "n div 4096 < 16" "n div 256 mod 16 < 16" "n div 16 mod 16 < 16" "n mod 16 < 16"
    using n by simp_all
  show ?thesis
    unfolding checksumStr_digits [OF assms] n_def [symmetric]
    using assms by (simp only: parseInt_hex4 [OF d] hex_value n(2)) (simp add: toNumber_small)
qed

text \<open>The frame end is found behind an escaped payload whose last byte is neither the
  end marker nor the escape byte.\<close>

lemma findEnd_guarded:
  assumes "pre \<noteq> []" "guardedEOF (last pre) xs"
  shows "findEnd (pre @ xs @ post) (length pre) = findEnd (pre @ xs @ post) (length pre + length xs)"
  using assms
proof (induction xs arbitrary: pre)
  case Nil
  show ?case by simp
next
  case (Cons x xs)
  let ?buf = "pre @ (x # xs) @ post"
  have at: "?buf ! length pre = x" "length pre < length ?buf" by simp_all
  have before: "?buf ! (length pre - 1) = last pre"
    using Cons.prems(1) by (simp add: nth_append last_conv_nth)
  have skip: "\<not> (x = EOF \<and> (length pre = 0 \<or> ?buf ! (length pre - 1) \<noteq> ESCAPE))"
    using Cons.prems unfolding before by (auto split: if_splits)
  have "findEnd ?buf (length pre) = findEnd ?buf (length pre + 1)"
    by (subst findEnd.simps) (simp only: at skip if_True if_False)
  also have "\<dots> = findEnd ((pre @ [x]) @ xs @ post) (length (pre @ [x]))" by simp
  also have "\<dots> = findEnd ((pre @ [x]) @ xs @ post) (length (pre @ [x]) + length xs)"
    using Cons.prems by (intro Cons.IH) simp_all
  finally show ?case by simp
qed

lemma findEnd_at:
  assumes "pre \<noteq> []" "last pre \<noteq> ESCAPE"
  shows "findEnd (pre @ EOF # post) (length pre)
    = Some (if post \<noteq> [] \<and> hd post = EOF then length pre + 1 else length pre)"
proof -
  define buf where "buf = pre @ EOF # post"
  define i where "i = length pre"
  have at: "buf ! i = EOF" "i < length buf" by (simp_all add: buf_def i_def)
  have before: "buf ! (i - 1) = last pre"
    using assms(1) by (simp add: buf_def i_def nth_append last_conv_nth)
  have c: "buf ! i = EOF \<and> (i = 0 \<or> buf ! (i - 1) \<noteq> ESCAPE)"
    using at(1) assms(2) unfolding before by simp
  have nxt: "(i + 1 < length buf \<and> buf ! (i + 1) = EOF) \<longleftrightarrow> (post \<noteq> [] \<and> hd post = EOF)"
    by (cases post) (simp_all add: buf_def i_def nth_append)
  have "findEnd buf i = Some (if i + 1 < length buf \<and> buf ! (i + 1) = EOF then i + 1 else i)"
    using before assms(2) by (subst findEnd.simps) (simp add: at)
  then show ?thesis unfolding nxt unfolding buf_def i_def .
qed

lemma guardedEOF_escapeData: "guardedEOF prev (escapeData d)"
  by (induction d arbitrary: prev) (auto simp: marker_defs)

lemma escapeData_Nil: "escapeData d = [] \<longleftrightarrow> d = []"
  by (cases d) auto

lemma last_escapeData: "d \<noteq> [] \<Longrightarrow> last (escapeData d) = last d"
  by (induction d) (auto simp: escapeData_Nil)

lemma popEOF_keep: "xs = [] \<or> last xs \<noteq> EOF \<Longrightarrow> popEOF xs = xs"
  by (cases xs rule: rev_cases) (auto simp: popEOF_def)

lemma popEOF_snoc: "popEOF (xs @ [EOF]) = popEOF xs"
  by (simp add: popEOF_def)

lemma char_of_byte: "char_of (unat (of_char c :: byte)) = c"
proof -
  have "(of_char c :: nat) < 256" by simp
  then have "unat (of_nat (of_char c) :: byte) = of_char c" by (simp add: unat_of_nat)
  moreover have "(of_char c :: byte) = of_nat (of_char c)" by (simp add: of_char_def)
  ultimately show ?thesis by simp
qed

lemma calculateChecksum_range: "0 \<le> calculateChecksum xs \<and> calculateChecksum xs < 65536"
  by (simp add: calculateChecksum_def js_and_mask16)

lemma length_checksumStr: "0 \<le> c \<Longrightarrow> c < 65536 \<Longrightarrow> length (checksumStr c) = 4"
  by (simp add: checksumStr_digits)

lemma hd_checksumStr: "0 \<le> c \<Longrightarrow> c < 65536 \<Longrightarrow> hd (checksumStr c) \<noteq> EOF"
  using hexDigit_plain(6) [of "nat c div 4096"] by (simp add: checksumStr_digits)

lemma parseFrameWith_wire:
  fixes e pad cs :: "byte list"
  assumes tb: "tb \<noteq> EOF" "tb \<noteq> ESCAPE"
    and g: "guardedEOF tb e"
    and le: "e = [] \<or> (last e \<noteq> EOF \<and> last e \<noteq> ESCAPE)"
    and pad: "pad = [] \<or> pad = [EOF]"
    and cs: "length cs = 4" "hd cs \<noteq> EOF"
  shows "parseFrameWith unescape ([SOF, tb] @ e @ EOF # pad @ cs)
    = Inr \<lparr>frame_type = char_of (unat tb),
           frame_data = (if e = [] then [] else unescape e),
           frame_checksum = parseInt cs (Some 16),
           checksumValid =
             (parseInt cs (Some 16) = Num (calculateChecksum ([SOF, tb] @ e @ EOF # pad)))\<rparr>"
proof -
  define pre where "pre = [SOF, tb] @ e"
  define buf where "buf = pre @ EOF # pad @ cs"
  define endIdx where "endIdx = length pre + length pad"
  have pre_ne: "pre \<noteq> []" by (simp add: pre_def)
  have last_pre: "last pre \<noteq> ESCAPE" using tb le by (auto simp: pre_def)
  have start: "findStart buf = Some 0" by (simp add: buf_def pre_def)
  have "findEnd buf (0 + 1) = findEnd ([SOF] @ (tb # e) @ (EOF # pad @ cs)) (length [SOF])"
    by (simp add: buf_def pre_def)
  also have "\<dots> = findEnd ([SOF] @ (tb # e) @ (EOF # pad @ cs)) (length [SOF] + length (tb # e))"
    using tb g by (intro findEnd_guarded) simp_all
  also have "\<dots> = findEnd (pre @ EOF # (pad @ cs)) (length pre)" by (simp add: pre_def)
  also have "\<dots> = Some (if pad @ cs \<noteq> [] \<and> hd (pad @ cs) = EOF then length pre + 1 else length pre)"
    using pre_ne last_pre by (rule findEnd_at)
  also have "\<dots> = Some endIdx" using pad cs by (auto simp: endIdx_def)
  finally have fe: "findEnd buf (0 + 1) = Some endIdx" .
  have len: "length buf = endIdx + 1 + 4" using cs by (simp add: buf_def endIdx_def)
  have ck: "slice buf (endIdx + 1) (endIdx + 1 + 4) = cs"
    using cs by (simp add: slice_def buf_def endIdx_def)
  have fd: "slice buf 0 (endIdx + 1) = [SOF, tb] @ e @ EOF # pad"
    by (simp add: slice_def buf_def endIdx_def pre_def)
  have ty: "buf ! (0 + 1) = tb" by (simp add: buf_def pre_def)
  have pl: "(if endIdx > 0 + 2 then
      (if length (popEOF (slice buf (0 + 2) endIdx)) > 0
       then unescape (popEOF (slice buf (0 + 2) endIdx)) else [])
      else []) = (if e = [] then [] else unescape e)"
  proof -
    have keep: "popEOF e = e" using le by (intro popEOF_keep) auto
    from pad show ?thesis
    proof
      assume p: "pad = []"
      have sl: "slice buf (0 + 2) endIdx = e"
        using p by (simp add: slice_def buf_def endIdx_def pre_def)
      have gt: "(endIdx > 0 + 2) = (e \<noteq> [])" using p by (simp add: endIdx_def pre_def)
      show ?thesis by (simp only: sl gt keep) simp
    next
      assume p: "pad = [EOF]"
      have sl: "slice buf (0 + 2) endIdx = e @ [EOF]"
        using p by (simp add: slice_def buf_def endIdx_def pre_def)
      have gt: "(endIdx > 0 + 2) = True" using p by (simp add: endIdx_def pre_def)
      show ?thesis by (simp only: sl gt keep popEOF_snoc if_True) simp
    qed
  qed
  have "parseFrameWith unescape buf
    = Inr \<lparr>frame_type = char_of (unat tb),
           frame_data = (if e = [] then [] else unescape e),
           frame_checksum = parseInt cs (Some 16),
           checksumValid =
             (parseInt cs (Some 16) = Num (calculateChecksum ([SOF, tb] @ e @ EOF # pad)))\<rparr>"
    unfolding parseFrameWith_def
    by (simp only: start fe option.case Let_def len ck fd ty pl) simp
  then show ?thesis by (simp add: buf_def pre_def)
qed

text \<open>For a type byte other than the end marker and the escape byte, and a payload that is
  empty or ends in neither of them, the frame built by \<open>createFrame\<close> parses back to the type
  and the payload with a valid checksum. The variant that substitutes bytes computes its
  checksum over the payload before escaping, so the same holds there for payloads without a
  byte that is escaped.\<close>

lemma parseFrame_createFrame:
  assumes t: "(of_char type :: byte) \<noteq> EOF" "(of_char type :: byte) \<noteq> ESCAPE"
    and d: "d = [] \<or> (last d \<noteq> EOF \<and> last d \<noteq> ESCAPE)"
  shows "\<exists>c. parseFrame (createFrame type d)
    = Inr \<lparr>frame_type = type, frame_data = d, frame_checksum = Num c, checksumValid = True\<rparr>"
proof -
  define tb :: byte where "tb = of_char type"
  define e where "e = escapeData d"
  define pad where "pad = (if (length ([SOF, tb] @ e @ [EOF]) + 4) mod 2 = 0 then [EOF] else [])"
  define c where "c = calculateChecksum (SOF # tb # e @ EOF # pad)"
  have c: "0 \<le> c" "c < 65536" using calculateChecksum_range [of "SOF # tb # e @ EOF # pad"]
    by (simp_all add: c_def)
  have e0: "(if length d > 0 then escapeData d else []) = e" by (cases d) (simp_all add: e_def)
  have wire: "createFrame type d = [SOF, tb] @ e @ EOF # pad @ checksumStr c"
    unfolding createFrame_def e0 tb_def [symmetric]
    by (simp add: Let_def pad_def c_def)
  have le: "e = [] \<or> (last e \<noteq> EOF \<and> last e \<noteq> ESCAPE)"
    using d by (cases "d = []") (simp_all add: e_def last_escapeData)
  have pd: "pad = [] \<or> pad = [EOF]" by (simp add: pad_def)
  have ty: "char_of (unat tb) = type" by (simp add: tb_def char_of_byte)
  have un: "(if e = [] then [] else unescapeData e) = d"
    by (simp add: e_def escapeData_Nil unescape_escape)
  have "parseFrame (createFrame type d)
    = Inr \<lparr>frame_type = type, frame_data = d, frame_checksum = Num c, checksumValid = True\<rparr>"
    unfolding wire parseFrame_def
    using parseFrameWith_wire [of tb e pad "checksumStr c" unescapeData,
        OF t [folded tb_def] guardedEOF_escapeData [of tb d, folded e_def] le pd
          length_checksumStr [OF c] hd_checksumStr [OF c]]
    by (simp add: un parseInt_checksumStr [OF c] c_def [symmetric] ty)
  then show ?thesis by blast
qed

lemma escapeDataSubst_plain:
  assumes "\<forall>b \<in> set d. b \<noteq> 0x00 \<and> b \<noteq> 0xFF \<and> b \<noteq> SOF \<and> b \<noteq> EOF \<and> b \<noteq> ESCAPE"
  shows "escapeDataSubst d = d"
  using assms by (induction d) auto

lemma guardedEOF_plain: "EOF \<notin> set d \<Longrightarrow> guardedEOF prev d"
  by (induction d arbitrary: prev) auto

lemma parseFrameSubst_createFrameSubst:
  assumes t: "(of_char type :: byte) \<noteq> EOF" "(of_char type :: byte) \<noteq> ESCAPE"
    and d: "\<forall>b \<in> set d. b \<noteq> 0x00 \<and> b \<noteq> 0xFF \<and> b \<noteq> SOF \<and> b \<noteq> EOF \<and> b \<noteq> ESCAPE"
  shows "\<exists>c. parseFrameSubst (createFrameSubst type d)
    = Inr \<lparr>frame_type = type, frame_data = d, frame_checksum = Num c, checksumValid = True\<rparr>"
proof -
  define tb :: byte where "tb = of_char type"
  define pad where "pad = (if length d mod 2 = 0 then [EOF] else [])"
  define c where "c = calculateChecksum (SOF # tb # d @ EOF # pad)"
  have c: "0 \<le> c" "c < 65536" using calculateChecksum_range [of "SOF # tb # d @ EOF # pad"]
    by (simp_all add: c_def)
  have e0: "(if length d > 0 then escapeDataSubst d else []) = d"
    using escapeDataSubst_plain [OF d] by (cases d) simp_all
  have wire: "createFrameSubst type d = [SOF, tb] @ d @ EOF # pad @ checksumStr c"
    unfolding createFrameSubst_def e0 tb_def [symmetric]
    by (simp add: Let_def pad_def c_def)
  have le: "d = [] \<or> (last d \<noteq> EOF \<and> last d \<noteq> ESCAPE)"
    using d by (cases "d = []") auto
  have g: "guardedEOF tb d" using d by (intro guardedEOF_plain) auto
  have pd: "pad = [] \<or> pad = [EOF]" by (simp add: pad_def)
  have ty: "char_of (unat tb) = type" by (simp add: tb_def char_of_byte)
  have un: "(if d = [] then [] else unescapeDataSubst d) = d"
    using unescape_escape_subst [of d] escapeDataSubst_plain [OF d] by simp
  have "parseFrameSubst (createFrameSubst type d)
    = Inr \<lparr>frame_type = type, frame_data = d, frame_checksum = Num c, checksumValid = True\<rparr>"
    unfolding wire parseFrameSubst_def
    using parseFrameWith_wire [of tb d pad "checksumStr c" unescapeDataSubst,
        OF t [folded tb_def] g le pd length_checksumStr [OF c] hd_checksumStr [OF c]]
    by (simp add: un parseInt_checksumStr [OF c] c_def [symmetric] ty)
  then show ?thesis by blast
qed

section \<open>Properties of the CBOR codec\<close>

lemmas major_defs = UNSIGNED_INT_def NEGATIVE_INT_def BYTE_STRING_def TEXT_STRING_def ARRAY_def
  MAP_def TAG_def FLOAT_SIMPLE_def SIMPLE_FALSE_def SIMPLE_TRUE_def SIMPLE_NULL_def
  SIMPLE_UNDEFINED_def
lemmas read_defs = getByte_def byteInt_def byteValue_def offAdd_def be16_def be32_def
  numGreater_def numGreaterEq_def numAdd_def loopCount_def

lemma upt_8: "[0..<8] = [0, 1, 2, 3, 4, 5, 6, 7]"
  by code_simp

lemma float64Value_zero: "float64Value 0 = JNum 0"
  by (simp add: float64Value_def)

subsection \<open>An unsigned integer with bit 31 set\<close>

lemma encode_2_31: "encode (JNum 2147483648) = [0x1A, 0x80, 0x00, 0x00, 0x00]"
  by (simp add: encode_def encodeUnsignedInt_def encodeTypeAndValue_def toUint8_def major_defs
      js_eval)

lemma js_shl_128_24: "js_shl 128 24 = - 2147483648"
  by (simp add: js_shl_def toInt32_def)

lemma js_shl_zero: "js_shl 0 k = 0"
  by (simp add: js_shl_def toInt32_def)

lemma js_or_zero: "js_or x 0 = toInt32 x"
  by (simp add: js_or_def toInt32_def)

lemma be32_2_31: "be32 [0x1A, 0x80, 0x00, 0x00, 0x00] (Some 1) = - 2147483648"
  by (simp add: be32_def getByte_def byteInt_def offAdd_def js_shl_128_24 js_shl_zero
      js_or_zero toInt32_def)

lemma decode_2_31:
  "decode keyOf (Suc depth) [0x1A, 0x80, 0x00, 0x00, 0x00] = Inr (JNum (- 2147483648))"
  by (simp add: decode_def decodeUnsignedInt_def be32_2_31 getByte_def byteInt_def offAdd_def
      numGreaterEq_def major_defs js_shr_def js_and_def toInt32_def)

text \<open>
  Claim C1. Decoding the encoding of a value should give the value back. The unsigned
  integer \<open>2147483648\<close> (\<open>2^31\<close>) is encoded in the four-byte form \<open>1A 80 00 00 00\<close>; the
  decoder joins the four bytes with \<open><<\<close> and \<open>|\<close>, which work on signed 32-bit integers,
  and returns \<open>-2147483648\<close>. This holds at every stack depth that admits one call and for
  every conversion of map keys.
\<close>

theorem C1_roundtrip_unsigned_2_31:
  "decode keyOf (Suc depth) (encode (JNum 2147483648)) = Inr (JNum (- 2147483648))"
  by (simp only: encode_2_31 decode_2_31)

subsection \<open>Additional information 31\<close>

lemma decode_9F: "decode keyOf (Suc depth) [0x9F] = Inr (JArr [])"
  by (simp add: decode_def decodeLength_def read_defs major_defs js_eval)

lemma decode_5F: "decode keyOf (Suc depth) [0x5F] = Inr (JBytes [])"
  by (simp add: decode_def decodeByteString_def decodeLength_def read_defs major_defs js_eval
      taSlice_def relIndex_def roundDouble_def)

lemma decode_BF: "decode keyOf (Suc depth) [0xBF] = Inr (JObj [])"
  by (simp add: decode_def decodeLength_def read_defs major_defs js_eval)

text \<open>
  Claim C5. An initial byte with additional information 31 (indefinite length) should make
  the decoder fail. \<open>_decodeLength\<close> returns the length \<open>-1\<close> for it and no caller looks at
  the sign: the array loop and the map loop run zero times, and the byte string is the
  empty slice. The inputs \<open>9F\<close>, \<open>5F\<close> and \<open>BF\<close> decode to the empty array, the empty byte
  string and the empty map.
\<close>

theorem C5_indefinite_length_decodes:
  "decode keyOf (Suc depth) [0x9F] = Inr (JArr []) \<and>
   decode keyOf (Suc depth) [0x5F] = Inr (JBytes []) \<and>
   decode keyOf (Suc depth) [0xBF] = Inr (JObj [])"
  by (simp only: decode_9F decode_5F decode_BF)

subsection \<open>Input that ends inside an argument\<close>

lemma decode_19: "decode keyOf (Suc depth) [0x19, 0x01] = Inr (JNum 256)"
  by (simp add: decode_def decodeUnsignedInt_def read_defs major_defs js_eval)

lemma decode_18: "decode keyOf (Suc depth) [0x18] = Inr JUndefined"
  by (simp add: decode_def decodeUnsignedInt_def read_defs major_defs js_eval)

lemma decode_FB: "decode keyOf (Suc depth) [0xFB] = Inr (JNum 0)"
  by (simp add: decode_def decodeFloatSimple_def read_defs major_defs js_eval
      float64Value_zero wordOfBytes_def toUint8_def upt_8)

text \<open>
  Claim C6. Input that ends before a multi-byte field is complete should make the decoder
  fail. \<open>_decodeUnsignedInt\<close> and \<open>_decodeFloatSimple\<close> read \<open>data[offset + k]\<close> with no
  check; a read past the end is \<open>undefined\<close>, which the bitwise operators and
  \<open>setUint8\<close> take as \<open>0\<close>. So \<open>19 01\<close> (a two-byte argument with one byte present)
  decodes to \<open>256\<close>, \<open>18\<close> (a one-byte argument with none present) to \<open>undefined\<close>, and
  \<open>FB\<close> (a float with none of its eight bytes) to \<open>0\<close>.
\<close>

theorem C6_truncated_argument_decodes:
  "decode keyOf (Suc depth) [0x19, 0x01] = Inr (JNum 256) \<and>
   decode keyOf (Suc depth) [0x18] = Inr JUndefined \<and>
   decode keyOf (Suc depth) [0xFB] = Inr (JNum 0)"
  by (simp only: decode_19 decode_18 decode_FB)
section \<open>Properties of the CoAP codec\<close>

subsection \<open>Rounding keeps the sign\<close>

lemma bitLength_pos: "0 < a \<Longrightarrow> 0 < bitLength a"
  by (subst bitLength.simps) simp

lemma bitLength_lower: "0 < a \<Longrightarrow> 2 ^ (bitLength a - 1) \<le> a"
proof (induction a rule: bitLength.induct)
  case (1 n)
  from 1(2) have b: "bitLength n = Suc (bitLength (n div 2))"
    by (subst bitLength.simps) simp
  show ?case
  proof (cases "n div 2 = 0")
    case True
    then have "bitLength (n div 2) = 0" by (subst bitLength.simps) simp
    with 1(2) show ?thesis by (simp add: b)
  next
    case False
    with 1(2) have p: "0 < n div 2" by simp
    with 1 have ih: "2 ^ (bitLength (n div 2) - 1) \<le> n div 2" by simp
    from bitLength_pos [OF p] obtain k where k: "bitLength (n div 2) = Suc k"
      by (cases "bitLength (n div 2)") simp_all
    from ih k have "(2::int) ^ Suc k \<le> 2 * (n div 2)" by simp
    also have "\<dots> \<le> n" by simp
    finally show ?thesis by (simp add: b k)
  qed
qed

lemma sgn_roundDouble: "sgn (roundDouble z) = sgn z"
proof (cases "\<bar>z\<bar> < 2 ^ 53")
  case True
  then show ?thesis by (simp add: roundDouble_def)
next
  case False
  define a where "a = \<bar>z\<bar>"
  define e where "e = bitLength a - 53"
  have a: "0 < a" using False by (simp add: a_def)
  have "(2::int) ^ e \<le> 2 ^ (bitLength a - 1)"
    by (rule power_increasing) (simp_all add: e_def)
  also have "\<dots> \<le> a" using a by (rule bitLength_lower)
  finally have le: "2 ^ e \<le> a" .
  have "(2::int) ^ e div 2 ^ e \<le> a div 2 ^ e"
    using le by (rule zdiv_mono1) simp
  then have "1 \<le> a div 2 ^ e" by simp
  then have q: "0 < (if a mod 2 ^ e > 2 ^ (e - 1) \<or> (a mod 2 ^ e = 2 ^ (e - 1) \<and> odd (a div 2 ^ e))
      then a div 2 ^ e + 1 else a div 2 ^ e)" by simp
  have r: "roundDouble z = sgn z *
      ((if a mod 2 ^ e > 2 ^ (e - 1) \<or> (a mod 2 ^ e = 2 ^ (e - 1) \<and> odd (a div 2 ^ e))
        then a div 2 ^ e + 1 else a div 2 ^ e) * 2 ^ e)"
    using False by (simp add: roundDouble_def Let_def a_def e_def)
  show ?thesis unfolding r using q by (simp add: sgn_mult)
qed

lemma compareSign_Num: "compareSign (Num a) (Num b) = sgn (a - b)"
proof -
  have "compareSign (Num a) (Num b) = sgn (roundDouble (a - b))"
    by (simp add: compareSign_def toNumber_def Let_def)
  then show ?thesis by (simp add: sgn_roundDouble)
qed

lemma compareSign_pos: "0 < compareSign (Num a) (Num b) \<longleftrightarrow> b < a"
  by (simp add: compareSign_Num sgn_if)

lemma consistentComparator_Num: "consistentComparator (map Num ns)"
  by (auto simp: consistentComparator_def compareSign_Num sgn_if)

subsection \<open>The sort of the options\<close>

lemma insertSorted_Num:
  "insertSorted (Num n, v) (map (\<lambda>(n, v). (Num n, v)) ys)
     = map (\<lambda>(n, v). (Num n, v)) (insort_key fst (n, v) ys)"
  by (induction ys) (auto simp: compareSign_pos)

lemma stableSort_Num:
  "stableSort (map (\<lambda>(n, v). (Num n, v)) xs) = map (\<lambda>(n, v). (Num n, v)) (sort_key fst xs)"
proof (induction xs)
  case Nil
  show ?case by (simp add: stableSort_def)
next
  case (Cons x xs)
  obtain n v where x: "x = (n, v)" by (cases x)
  from Cons show ?case
    by (simp add: stableSort_def x insertSorted_Num)
qed

lemma sortedOptions_Num:
  assumes "numberedOptions options = map (\<lambda>(n, v). (Num n, v)) ents"
  shows "sortedOptions engine options = map (\<lambda>(n, v). (Num n, v)) (sort_key fst ents)"
proof -
  have "map fst (map (\<lambda>(n, v). (Num n, v)) ents) = map Num (map fst ents)"
    by (simp add: comp_def case_prod_beta)
  then have "consistentComparator (map fst (numberedOptions options))"
    unfolding assms by (simp only: consistentComparator_Num)
  then show ?thesis
    by (simp add: sortedOptions_def Let_def) (simp add: assms stableSort_Num)
qed

subsection \<open>Keys that are decimal numerals\<close>

lemma of_char_char_of_byte: "k < 256 \<Longrightarrow> (of_char (char_of (k::nat)) :: byte) = of_nat k"
proof -
  assume k: "k < 256"
  have "(of_char (char_of k) :: byte) = of_nat (of_char (char_of k) :: nat)"
    by (simp only: of_nat_of_char)
  with k show ?thesis by simp
qed

lemma unat_decimal_digit: "d < 10 \<Longrightarrow> unat (of_char (char_of (48 + d :: nat)) :: byte) = 48 + d"
proof -
  assume d: "d < 10"
  then have "48 + d < 256" by simp
  then have "(of_char (char_of (48 + d)) :: byte) = of_nat (48 + d)"
    by (rule of_char_char_of_byte)
  then show ?thesis using d by (simp only: unat_of_nat) simp
qed

lemma spec_decimal_bytes:
  "b \<in> set (map of_char (spec_decimal n) :: byte list) \<Longrightarrow> 48 \<le> unat b \<and> unat b \<le> 57"
proof (induction n rule: spec_decimal.induct)
  case (1 n)
  show ?case
  proof (cases "n < 10")
    case True
    with 1(2) have "b = of_char (char_of (48 + n))" by (subst (asm) spec_decimal.simps) simp
    with True show ?thesis by (simp only: unat_decimal_digit) simp
  next
    case False
    with 1(2) have "b \<in> set (map of_char (spec_decimal (n div 10)))
        \<or> b = of_char (char_of (48 + n mod 10))"
      by (subst (asm) spec_decimal.simps) auto
    then show ?thesis
    proof
      assume "b \<in> set (map of_char (spec_decimal (n div 10)))"
      with 1(1) False show ?thesis by simp
    next
      assume "b = of_char (char_of (48 + n mod 10))"
      then show ?thesis by (simp only: unat_decimal_digit [of "n mod 10"]) simp
    qed
  qed
qed

lemma spec_decimal_not_Nil: "spec_decimal n \<noteq> []"
  by (subst spec_decimal.simps) simp

lemma digitVal_decimal:
  assumes "48 \<le> unat b" "unat b \<le> 57"
  shows "digitVal 10 b = Some (unat b - 48)"
  using assms by (auto simp: digitVal_def word_le_nat_alt Let_def)

lemma digitsOf_decimal:
  assumes "\<forall>b \<in> set xs. 48 \<le> unat b \<and> unat b \<le> 57"
  shows "digitsOf 10 (xs @ rest) = map (\<lambda>b. unat b - 48) xs @ digitsOf 10 rest"
  using assms by (induction xs) (simp_all add: digitVal_decimal)

lemma decimal_value:
  "foldl (\<lambda>acc d. 10 * acc + d) 0
     (map (\<lambda>c. unat (of_char c :: byte) - 48) (spec_decimal n)) = n"
proof (induction n rule: spec_decimal.induct)
  case (1 n)
  show ?case
  proof (cases "n < 10")
    case True
    then show ?thesis
      by (subst spec_decimal.simps) (simp add: unat_decimal_digit)
  next
    case False
    with 1 have ih: "foldl (\<lambda>acc d. 10 * acc + d) 0
        (map (\<lambda>c. unat (of_char c :: byte) - 48) (spec_decimal (n div 10))) = n div 10"
      by simp
    have u: "unat (of_char (char_of (48 + n mod 10)) :: byte) = 48 + n mod 10"
      by (rule unat_decimal_digit) simp
    have "spec_decimal n = spec_decimal (n div 10) @ [char_of (48 + n mod 10)]"
      using False by (subst spec_decimal.simps) simp
    then have "foldl (\<lambda>acc d. 10 * acc + d) 0
        (map (\<lambda>c. unat (of_char c :: byte) - 48) (spec_decimal n))
      = 10 * foldl (\<lambda>acc d. 10 * acc + d) 0
          (map (\<lambda>c. unat (of_char c :: byte) - 48) (spec_decimal (n div 10)))
        + (unat (of_char (char_of (48 + n mod 10)) :: byte) - 48)"
      by simp
    then show ?thesis unfolding ih u by simp
  qed
qed

lemma not_hasHexPrefix:
  assumes "\<forall>b \<in> set xs. unat b \<le> 57"
  shows "\<not> hasHexPrefix xs"
proof (cases xs rule: hasHexPrefix.cases)
  case (1 z x bs)
  with assms have "unat x \<le> 57" by simp
  then have "x \<noteq> 0x78" "x \<noteq> 0x58" by auto
  with 1 show ?thesis by simp
qed simp_all

lemma parseInt_decimal:
  "parseInt (map of_char (spec_decimal n)) None = toNumber (int n)"
proof -
  define xs :: "byte list" where "xs = map of_char (spec_decimal n)"
  have d: "\<forall>b \<in> set xs. 48 \<le> unat b \<and> unat b \<le> 57"
    unfolding xs_def using spec_decimal_bytes by blast
  have ne: "xs \<noteq> []" by (simp add: xs_def spec_decimal_not_Nil)
  then obtain b bs where xs: "xs = b # bs" by (cases xs) simp_all
  from d xs have b: "48 \<le> unat b" "unat b \<le> 57" by simp_all
  then have nw: "\<not> isWhiteSpace b" by (auto simp: isWhiteSpace_def)
  from b have ns: "b \<noteq> 0x2D" "b \<noteq> 0x2B" by auto
  have st: "stripSign (dropWhile isWhiteSpace xs) = (1, xs)"
    using nw ns by (simp add: xs)
  have hp: "\<not> hasHexPrefix xs" using d by (intro not_hasHexPrefix) auto
  have ds: "digitsOf 10 xs = map (\<lambda>b. unat b - 48) xs"
    using digitsOf_decimal [OF d, of "[]"] by simp
  have v: "foldl (\<lambda>acc d. 10 * acc + d) 0 (map (\<lambda>b. unat b - 48) xs) = n"
    using decimal_value [of n] by (simp add: xs_def comp_def)
  show ?thesis
    unfolding xs_def [symmetric]
    by (simp add: parseInt_def st hp ds v ne)
qed

lemma spec_decimal_chars:
  "c \<in> set (spec_decimal n) \<Longrightarrow> 48 \<le> (of_char c :: nat) \<and> (of_char c :: nat) \<le> 57"
proof (induction n rule: spec_decimal.induct)
  case (1 n)
  show ?case
  proof (cases "n < 10")
    case True
    with 1(2) have "c = char_of (48 + n)" by (subst (asm) spec_decimal.simps) simp
    with True show ?thesis by simp
  next
    case False
    with 1(2) have "c \<in> set (spec_decimal (n div 10)) \<or> c = char_of (48 + n mod 10)"
      by (subst (asm) spec_decimal.simps) auto
    then show ?thesis
    proof
      assume "c \<in> set (spec_decimal (n div 10))"
      with 1(1) False show ?thesis by simp
    next
      assume c: "c = char_of (48 + n mod 10)"
      have "48 + n mod 10 < 256" by simp
      then show ?thesis unfolding c by simp
    qed
  qed
qed

lemma toLowerCase_decimal: "toLowerCase (spec_decimal n) = spec_decimal n"
  unfolding toLowerCase_def
proof (rule map_idI)
  fix c assume "c \<in> set (spec_decimal n)"
  then have "48 \<le> (of_char c :: nat) \<and> (of_char c :: nat) \<le> 57" by (rule spec_decimal_chars)
  then show "(let k = (of_char c :: nat) in
      if (65 \<le> k \<and> k \<le> 90) \<or> (192 \<le> k \<and> k \<le> 222 \<and> k \<noteq> 215)
      then char_of (k + 32) else c) = c"
    by (simp add: Let_def)
qed

lemma optionMap_decimal: "map_of optionMap (toLowerCase (spec_decimal n)) = None"
proof -
  obtain c cs where s: "spec_decimal n = c # cs"
    using spec_decimal_not_Nil [of n] by (cases "spec_decimal n") simp_all
  have "c \<in> set (spec_decimal n)" by (simp add: s)
  then have r: "(of_char c :: nat) \<le> 57" using spec_decimal_chars by blast
  then have "c \<noteq> CHR ''u''" "c \<noteq> CHR ''c''" "c \<noteq> CHR ''a''" by auto
  then show ?thesis
    unfolding toLowerCase_decimal by (simp add: s optionMap_def)
qed

lemma getOptionNumber_decimal: "getOptionNumber (spec_decimal n) = toNumber (int n)"
  by (simp add: getOptionNumber_def optionMap_decimal parseInt_decimal)

lemma getOptionNumber_registered:
  assumes "map_of spec_registry n = Some key"
  shows "getOptionNumber key = Num (int n)"
proof -
  from assms have "(n = 3 \<and> key = ''uri-host'') \<or> (n = 7 \<and> key = ''uri-port'')
      \<or> (n = 11 \<and> key = ''uri-path'') \<or> (n = 12 \<and> key = ''content-format'')
      \<or> (n = 15 \<and> key = ''uri-query'') \<or> (n = 17 \<and> key = ''accept'')"
    by (auto simp: spec_registry_def split: if_splits)
  then show ?thesis
    by (auto simp: getOptionNumber_def optionMap_def toLowerCase_def)
qed

lemma getOptionNumber_spec:
  assumes "spec_keyNames key n" "n < 2 ^ 53"
  shows "getOptionNumber key = Num (int n)"
proof -
  from assms(2) have "\<bar>int n\<bar> < 2 ^ 53" by simp
  then have "toNumber (int n) = Num (int n)" by (rule toNumber_small)
  with assms(1) show ?thesis
    by (auto simp: spec_keyNames_def getOptionNumber_decimal getOptionNumber_registered)
qed

subsection \<open>Option values\<close>

lemma toUint8_cong: "a mod 256 = b mod 256 \<Longrightarrow> toUint8 a = toUint8 b"
  by (simp add: toUint8_def word_of_int_eq_iff take_bit_eq_mod)

lemma toInt32_mod_256: "toInt32 x mod 256 = x mod 256"
proof -
  have d: "(256::int) dvd 4294967296" by simp
  have "toInt32 x mod 256 =
      ((x + 2147483648) mod 4294967296 mod 256 - 2147483648 mod 256) mod 256"
    unfolding toInt32_def by (simp only: mod_diff_eq)
  also have "\<dots> = ((x + 2147483648) mod 256 - 2147483648 mod 256) mod 256"
    by (simp only: mod_mod_cancel [OF d])
  also have "\<dots> = (x + 2147483648 - 2147483648) mod 256"
    by (simp only: mod_diff_eq)
  finally show ?thesis by simp
qed

lemma toUint8_js_and_FF: "toUint8 (js_and y 0xFF) = toUint8 y"
proof -
  have m: "(255::int) = mask 8" by (simp add: mask_eq_exp_minus_1)
  have a: "toInt32 y AND 255 = toInt32 y mod 256"
    unfolding m by (simp add: take_bit_eq_mod flip: take_bit_eq_mask)
  have r: "0 \<le> toInt32 y mod 256" "toInt32 y mod 256 < 256" by simp_all
  then have t: "toInt32 (toInt32 y mod 256) = toInt32 y mod 256"
    by (intro toInt32_id) linarith+
  have t255: "toInt32 255 = 255" by (simp add: toInt32_def)
  have j: "js_and y 0xFF = toInt32 y mod 256"
    by (simp only: js_and_def t255 a t)
  have "toInt32 y mod 256 mod 256 = y mod 256"
    by (simp only: mod_mod_trivial toInt32_mod_256)
  then have "toUint8 (toInt32 y mod 256) = toUint8 y" by (rule toUint8_cong)
  then show ?thesis by (simp only: j)
qed

lemma toInt32_cases:
  assumes "0 \<le> x" "x < 4294967296"
  shows "toInt32 x = x \<or> toInt32 x = x - 4294967296"
proof (cases "x < 2147483648")
  case True
  with assms show ?thesis by (simp add: toInt32_id)
next
  case False
  with assms have "(x + 2147483648) div 4294967296 = 1" by (intro int_div_pos_eq [where r = "x - 2147483648"]) simp_all
  then have "(x + 2147483648) mod 4294967296 = x + 2147483648 - 4294967296"
    using mult_div_mod_eq [of 4294967296 "x + 2147483648"] by linarith
  then show ?thesis by (simp add: toInt32_def)
qed

lemma toUint8_js_shr:
  assumes "0 \<le> x" "x < 4294967296" "k \<le> 24"
  shows "toUint8 (js_shr x k) = toUint8 (x div 2 ^ k)"
proof -
  from toInt32_cases [OF assms(1,2)] show ?thesis
  proof
    assume "toInt32 x = x"
    then show ?thesis by (simp only: js_shr_def)
  next
    assume t: "toInt32 x = x - 4294967296"
    have "(2::int) ^ (32 - k) * 2 ^ k = 2 ^ (32 - k + k)" by (simp only: power_add)
    also have "32 - k + k = 32" using assms(3) by simp
    finally have p: "(2::int) ^ (32 - k) * 2 ^ k = 4294967296" by simp
    have "(x + (- (2 ^ (32 - k))) * 2 ^ k) div 2 ^ k = (- (2 ^ (32 - k))) + x div 2 ^ k"
      by (rule div_mult_self1) simp
    moreover have "x + (- (2 ^ (32 - k))) * 2 ^ k = x - 4294967296"
      using p by simp
    ultimately have e: "(x - 4294967296) div 2 ^ k = x div 2 ^ k - 2 ^ (32 - k)" by simp
    have "(2::int) ^ 8 dvd 2 ^ (32 - k)" using assms(3) by (intro le_imp_power_dvd) simp
    then have "(256::int) dvd 2 ^ (32 - k)" by simp
    then have z: "(2::int) ^ (32 - k) mod 256 = 0" by (simp only: dvd_eq_mod_eq_0)
    have "(x div 2 ^ k - 2 ^ (32 - k)) mod 256 = (x div 2 ^ k - 2 ^ (32 - k) mod 256) mod 256"
      by (simp only: mod_diff_right_eq)
    then have "(x div 2 ^ k - 2 ^ (32 - k)) mod 256 = (x div 2 ^ k) mod 256"
      by (simp only: z diff_zero)
    then have "toUint8 (x div 2 ^ k - 2 ^ (32 - k)) = toUint8 (x div 2 ^ k)"
      by (rule toUint8_cong)
    then show ?thesis by (simp only: js_shr_def t e)
  qed
qed

lemma toUint8_nat: "0 \<le> y \<Longrightarrow> of_nat (nat y) = toUint8 y"
  by (simp add: toUint8_def)

lemma encodeNumber_spec:
  assumes "0 \<le> x" "x < 4294967296"
  shows "encodeNumber x = spec_uintBytes (nat x)"
proof -
  have d: "nat x div 256 = nat (x div 256)" "nat x div 65536 = nat (x div 65536)"
    "nat x div 16777216 = nat (x div 16777216)"
    using assms(1) by (simp_all add: nat_div_distrib)
  have n: "0 \<le> x div 256" "0 \<le> x div 65536" "0 \<le> x div 16777216"
    using assms(1) by (simp_all add: pos_imp_zdiv_nonneg_iff)
  have w: "(of_nat (nat x) :: byte) = toUint8 x"
    "(of_nat (nat x div 256) :: byte) = toUint8 (x div 256)"
    "(of_nat (nat x div 65536) :: byte) = toUint8 (x div 65536)"
    "(of_nat (nat x div 16777216) :: byte) = toUint8 (x div 16777216)"
    unfolding d using assms(1) n by (simp_all only: toUint8_nat)
  have s8: "toUint8 (js_shr x 8) = toUint8 (x div 256)"
    using toUint8_js_shr [OF assms, of 8] by simp
  have s16: "toUint8 (js_shr x 16) = toUint8 (x div 65536)"
    using toUint8_js_shr [OF assms, of 16] by simp
  have s24: "toUint8 (js_shr x 24) = toUint8 (x div 16777216)"
    using toUint8_js_shr [OF assms, of 24] by simp
  consider "x = 0" | "0 < x" "x < 256" | "256 \<le> x" "x < 65536" | "65536 \<le> x"
    using assms(1) by linarith
  then show ?thesis
  proof cases
    case 1
    then show ?thesis by (simp add: encodeNumber_def spec_uintBytes_def)
  next
    case 2
    then have "nat x \<noteq> 0" "nat x < 256" by simp_all
    with 2 show ?thesis
      by (simp only: encodeNumber_def spec_uintBytes_def w if_True if_False) simp
  next
    case 3
    then have "nat x \<noteq> 0" "\<not> nat x < 256" "nat x < 65536" by simp_all
    moreover from 3 have "x \<noteq> 0" "\<not> x < 256" by simp_all
    ultimately show ?thesis using 3(2)
      by (simp only: encodeNumber_def spec_uintBytes_def w if_True if_False s8
          toUint8_js_and_FF)
  next
    case 4
    then have "nat x \<noteq> 0" "\<not> nat x < 256" "\<not> nat x < 65536" by simp_all
    moreover from 4 have "x \<noteq> 0" "\<not> x < 256" "\<not> x < 65536" by simp_all
    ultimately show ?thesis
      by (simp only: encodeNumber_def spec_uintBytes_def w if_True if_False s8 s16 s24
          toUint8_js_and_FF)
  qed
qed

lemma optionValueBytes_spec: "spec_valueBytes v = Some bs \<Longrightarrow> optionValueBytes v = bs"
  by (cases v)
    (auto simp: spec_valueBytes_def optionValueBytes_def encodeNumber_spec split: if_splits)

subsection \<open>Option headers on the wire\<close>

lemma numLess_Num: "numLess (Num x) c \<longleftrightarrow> x < c"
  by (simp add: numLess_def)

lemma numInt_Num: "numInt (Num x) = x"
  by (simp add: numInt_def)

lemma numMinus_small: "\<bar>x - y\<bar> < 2 ^ 53 \<Longrightarrow> numMinus (Num x) (Num y) = Num (x - y)"
  by (simp add: toNumber_small)

lemma toUint8_int: "toUint8 (int k) = of_nat k"
  by (simp add: toUint8_def)

lemma js_or_shl_nibble:
  assumes "0 \<le> a" "a \<le> 14" "0 \<le> b" "b \<le> 14"
  shows "js_or (js_shl a 4) b = 16 * a + b"
  using js_or_shl [of a b 4] assms by simp

lemma spec_nibble_range: "spec_nibble x \<le> 14"
  by (simp add: spec_nibble_def)

lemma lengthNibble_spec: "lengthNibble (int l) = int (spec_nibble l)"
  by (simp add: lengthNibble_def spec_nibble_def)

lemma ext_bytes:
  assumes "269 \<le> x" "x < 65805"
  shows "[toUint8 (js_shr (int x - 269) 8), toUint8 (js_and (int x - 269) 0xFF)] = spec_ext x"
proof -
  have r: "0 \<le> int x - 269" "int x - 269 < 2147483648" using assms by simp_all
  have i: "int x - 269 = int (x - 269)" using assms by simp
  have "js_shr (int x - 269) 8 = (int x - 269) div 2 ^ 8" using r by (rule js_shr_nonneg)
  then have "js_shr (int x - 269) 8 = int ((x - 269) div 256)"
    by (simp add: i zdiv_int)
  then have h: "toUint8 (js_shr (int x - 269) 8) = of_nat ((x - 269) div 256)"
    by (simp only: toUint8_int)
  have l: "toUint8 (js_and (int x - 269) 0xFF) = of_nat (x - 269)"
    unfolding toUint8_js_and_FF i by (rule toUint8_int)
  show ?thesis using assms by (simp only: h l spec_ext_def) simp
qed

lemma ext_byte:
  assumes "13 \<le> x" "x < 269"
  shows "[toUint8 (int x - 13)] = spec_ext x"
proof -
  have "int x - 13 = int (x - 13)" using assms by simp
  then have "toUint8 (int x - 13) = of_nat (x - 13)" by (simp only: toUint8_int)
  then show ?thesis using assms by (simp add: spec_ext_def)
qed

lemma header_byte:
  assumes "a \<le> 14" "b \<le> 14"
  shows "toUint8 (js_or (js_shl (int a) 4) (int b)) = of_nat (16 * a + b)"
proof -
  have "js_or (js_shl (int a) 4) (int b) = int (16 * a + b)"
    using js_or_shl_nibble [of "int a" "int b"] assms by simp
  then show ?thesis by (simp only: toUint8_int)
qed

lemma optionHeader_Num:
  assumes "\<bar>d\<bar> < 2 ^ 52"
  shows "optionHeader (Num d) len =
     (if d < 13 \<and> len < 13 then [js_or (js_shl d 4) len]
      else
        (if d < 13 then []
         else if d < 269 then [js_or (js_shl 13 4) (lengthNibble len), d - 13]
         else [js_or (js_shl 14 4) (lengthNibble len), js_shr (d - 269) 8,
               js_and (d - 269) 0xFF])
        @ (if d < 13 then
             (if len < 13 then [js_or (js_shl d 4) len]
              else if len < 269 then [js_or (js_shl d 4) 13, len - 13]
              else [js_or (js_shl d 4) 14, js_shr (len - 269) 8, js_and (len - 269) 0xFF])
           else if len \<ge> 269 then [js_shr (len - 269) 8, js_and (len - 269) 0xFF]
           else if len \<ge> 13 then [len - 13]
           else []))"
proof -
  have "\<bar>d - 13\<bar> < 2 ^ 53" "\<bar>d - 269\<bar> < 2 ^ 53" using assms by simp_all
  then have "toNumber (d - 13) = Num (d - 13)" "toNumber (d - 269) = Num (d - 269)"
    by (simp_all only: toNumber_small)
  then show ?thesis
    by (simp add: optionHeader_def numLess_Num numInt_Num Let_def)
qed

lemma header_bytes:
  assumes "d < 65805" "l < 65805"
  shows "map toUint8 (optionHeader (Num (int d)) (int l))
    = of_nat (16 * spec_nibble d + spec_nibble l) # spec_ext d @ spec_ext l"
proof -
  have small: "\<bar>int d\<bar> < 2 ^ 52" using assms(1) by simp
  note oh = optionHeader_Num [OF small, of "int l"]
  have nl: "spec_nibble l \<le> 14" "spec_nibble d \<le> 14" by (rule spec_nibble_range)+
  have el: "[toUint8 (int l - 13)] = spec_ext l" if "13 \<le> l" "l < 269"
    using that by (rule ext_byte)
  have el2: "[toUint8 (js_shr (int l - 269) 8), toUint8 (js_and (int l - 269) 0xFF)] = spec_ext l"
    if "269 \<le> l" using that assms(2) by (rule ext_bytes)
  have ed: "[toUint8 (int d - 13)] = spec_ext d" if "13 \<le> d" "d < 269"
    using that by (rule ext_byte)
  have ed2: "[toUint8 (js_shr (int d - 269) 8), toUint8 (js_and (int d - 269) 0xFF)] = spec_ext d"
    if "269 \<le> d" using that assms(1) by (rule ext_bytes)
  have e0: "\<And>x. x < 13 \<Longrightarrow> spec_ext x = []" by (simp add: spec_ext_def)
  have n0: "\<And>x. x < 13 \<Longrightarrow> spec_nibble x = x" by (simp add: spec_nibble_def)
  have n13: "\<And>x. 13 \<le> x \<Longrightarrow> x < 269 \<Longrightarrow> spec_nibble x = 13" by (simp add: spec_nibble_def)
  have n14: "\<And>x. 269 \<le> x \<Longrightarrow> spec_nibble x = 14" by (simp add: spec_nibble_def)
  have hd: "toUint8 (js_or (js_shl (int d) 4) (int b)) = of_nat (16 * d + b)"
    if "d < 13" "b \<le> 14" for b using header_byte [of d b] that by simp
  have h13: "toUint8 (js_or (js_shl 13 4) (int b)) = of_nat (16 * 13 + b)" if "b \<le> 14" for b
    using header_byte [of 13 b] that by simp
  have h14: "toUint8 (js_or (js_shl 14 4) (int b)) = of_nat (16 * 14 + b)" if "b \<le> 14" for b
    using header_byte [of 14 b] that by simp
  have i13: "(13::int) = int 13" "(14::int) = int 14" by simp_all
  consider "d < 13" | "13 \<le> d" "d < 269" | "269 \<le> d" by linarith
  then show ?thesis
  proof cases
    case 1
    consider "l < 13" | "13 \<le> l" "l < 269" | "269 \<le> l" by linarith
    then show ?thesis
    proof cases
      case 1
      have "optionHeader (Num (int d)) (int l) = [js_or (js_shl (int d) 4) (int l)]"
        using 1 \<open>d < 13\<close> by (simp add: oh)
      then show ?thesis
        using hd [of l] 1 \<open>d < 13\<close> by (simp add: e0 n0)
    next
      case 2
      have "optionHeader (Num (int d)) (int l) = [js_or (js_shl (int d) 4) (int 13), int l - 13]"
        using 2 \<open>d < 13\<close> by (simp add: oh)
      then have "map toUint8 (optionHeader (Num (int d)) (int l))
          = toUint8 (js_or (js_shl (int d) 4) (int 13)) # [toUint8 (int l - 13)]" by simp
      also have "\<dots> = of_nat (16 * d + 13) # spec_ext l"
        using hd [OF \<open>d < 13\<close>, of 13] by (simp only: el [OF 2])
      finally show ?thesis
        by (simp only: e0 [OF \<open>d < 13\<close>] n0 [OF \<open>d < 13\<close>] n13 [OF 2] append_Nil)
    next
      case 3
      have "optionHeader (Num (int d)) (int l)
          = [js_or (js_shl (int d) 4) (int 14), js_shr (int l - 269) 8, js_and (int l - 269) 0xFF]"
        using 3 \<open>d < 13\<close> by (simp add: oh)
      then have "map toUint8 (optionHeader (Num (int d)) (int l))
          = toUint8 (js_or (js_shl (int d) 4) (int 14))
            # [toUint8 (js_shr (int l - 269) 8), toUint8 (js_and (int l - 269) 0xFF)]" by simp
      also have "\<dots> = of_nat (16 * d + 14) # spec_ext l"
        using hd [OF \<open>d < 13\<close>, of 14] by (simp only: el2 [OF 3])
      finally show ?thesis
        by (simp only: e0 [OF \<open>d < 13\<close>] n0 [OF \<open>d < 13\<close>] n14 [OF 3] append_Nil)
    qed
  next
    case 2
    have "optionHeader (Num (int d)) (int l)
        = [js_or (js_shl 13 4) (int (spec_nibble l)), int d - 13]
          @ (if 269 \<le> l then [js_shr (int l - 269) 8, js_and (int l - 269) 0xFF]
             else if 13 \<le> l then [int l - 13] else [])"
      using 2 by (simp add: oh lengthNibble_spec)
    then have "map toUint8 (optionHeader (Num (int d)) (int l))
        = (toUint8 (js_or (js_shl 13 4) (int (spec_nibble l))) # [toUint8 (int d - 13)])
          @ (if 269 \<le> l then [toUint8 (js_shr (int l - 269) 8), toUint8 (js_and (int l - 269) 0xFF)]
             else if 13 \<le> l then [toUint8 (int l - 13)] else [])"
      by simp
    also have "(if 269 \<le> l then [toUint8 (js_shr (int l - 269) 8), toUint8 (js_and (int l - 269) 0xFF)]
             else if 13 \<le> l then [toUint8 (int l - 13)] else []) = spec_ext l"
      using el el2 e0 [of l] by (cases "269 \<le> l"; cases "13 \<le> l") simp_all
    finally show ?thesis
      by (simp only: h13 [OF nl(1)] ed [OF 2] n13 [OF 2] append_Cons)
  next
    case 3
    have "optionHeader (Num (int d)) (int l)
        = [js_or (js_shl 14 4) (int (spec_nibble l)), js_shr (int d - 269) 8,
           js_and (int d - 269) 0xFF]
          @ (if 269 \<le> l then [js_shr (int l - 269) 8, js_and (int l - 269) 0xFF]
             else if 13 \<le> l then [int l - 13] else [])"
      using 3 by (simp add: oh lengthNibble_spec)
    then have "map toUint8 (optionHeader (Num (int d)) (int l))
        = (toUint8 (js_or (js_shl 14 4) (int (spec_nibble l)))
            # [toUint8 (js_shr (int d - 269) 8), toUint8 (js_and (int d - 269) 0xFF)])
          @ (if 269 \<le> l then [toUint8 (js_shr (int l - 269) 8), toUint8 (js_and (int l - 269) 0xFF)]
             else if 13 \<le> l then [toUint8 (int l - 13)] else [])"
      by simp
    also have "(if 269 \<le> l then [toUint8 (js_shr (int l - 269) 8), toUint8 (js_and (int l - 269) 0xFF)]
             else if 13 \<le> l then [toUint8 (int l - 13)] else []) = spec_ext l"
      using el el2 e0 [of l] by (cases "269 \<le> l"; cases "13 \<le> l") simp_all
    finally show ?thesis
      by (simp only: h14 [OF nl(1)] ed2 [OF 3] n14 [OF 3] append_Cons)
  qed
qed

subsection \<open>Parsing options from the wire\<close>

lemma readByte_append: "readByte (xs @ y # ys) (length xs) = Some (unat y)"
  by (simp add: readByte_def)

lemma readByte_append2: "readByte (xs @ y # z # ys) (Suc (length xs)) = Some (unat z)"
  by (simp add: readByte_def nth_append)

lemma unat_of_nat_byte: "k < 256 \<Longrightarrow> unat (of_nat k :: byte) = k"
  by (simp add: unat_of_nat)

lemma extendNibble_spec:
  assumes "x < 65805"
  shows "extendNibble (pre @ spec_ext x @ post) (spec_nibble x) (length pre)
    = (Some x, length pre + length (spec_ext x))"
proof -
  consider "x < 13" | "13 \<le> x" "x < 269" | "269 \<le> x" by linarith
  then show ?thesis
  proof cases
    case 1
    then show ?thesis
      by (simp add: extendNibble_def spec_nibble_def spec_ext_def)
  next
    case 2
    then have "unat (of_nat (x - 13) :: byte) = x - 13" by (intro unat_of_nat_byte) simp
    with 2 show ?thesis
      by (simp add: extendNibble_def spec_nibble_def spec_ext_def readByte_append)
  next
    case 3
    define y where "y = x - 269"
    have y: "y < 65536" using 3 assms by (simp add: y_def)
    then have h: "unat (of_nat (y div 256) :: byte) = y div 256"
      by (intro unat_of_nat_byte) simp
    have l: "unat (of_nat y :: byte) = y mod 256" by (simp add: unat_of_nat)
    have "269 + (y div 256) * 256 + y mod 256 = x" using 3 by (simp add: y_def)
    with 3 h l show ?thesis
      by (simp add: extendNibble_def spec_nibble_def spec_ext_def readByte_append
          readByte_append2 flip: y_def)
  qed
qed

lemma slice_middle: "slice (xs @ v @ ys) (length xs) (length xs + length v) = v"
  by (simp add: slice_def)

lemma parseOptions_option:
  fixes v :: "byte list"
  assumes d: "d < 65805" and l: "length v < 65805"
    and buf: "buf = pre @ spec_option d v @ rest"
  shows "parseOptions buf (Some (length pre)) (Some cur) acc
    = parseOptions buf (Some (length pre + length (spec_option d v)))
        (Some (cur + d)) (addOption acc (getOptionName (Some (cur + d))) v)"
proof -
  let ?l = "length v"
  let ?h = "of_nat (16 * spec_nibble d + spec_nibble ?l) :: byte"
  have rd: "spec_nibble d \<le> 14" and rl: "spec_nibble ?l \<le> 14" by (rule spec_nibble_range)+
  have hv: "unat ?h = 16 * spec_nibble d + spec_nibble ?l"
    using rd rl by (intro unat_of_nat_byte) linarith
  have hd: "unat (drop_bit 4 ?h AND 0x0F) = spec_nibble d"
    using rd rl unfolding high_nibble hv by simp
  have hl: "unat (?h AND 0x0F) = spec_nibble ?l"
    using rd rl unfolding low_nibble hv by simp
  have "unat ?h \<noteq> 255" using rd rl unfolding hv by linarith
  then have ne: "?h \<noteq> 0xFF" by auto
  have b: "buf = pre @ ?h # spec_ext d @ spec_ext ?l @ v @ rest"
    by (simp add: buf spec_option_def)
  have at: "buf ! length pre = ?h" "length pre < length buf" by (simp_all add: b)
  have e1: "extendNibble buf (spec_nibble d) (length pre + 1)
      = (Some d, length pre + 1 + length (spec_ext d))"
    using extendNibble_spec [OF d, of "pre @ [?h]" "spec_ext ?l @ v @ rest"]
    by (simp add: b)
  have e2: "extendNibble buf (spec_nibble ?l) (length pre + 1 + length (spec_ext d))
      = (Some ?l, length pre + 1 + length (spec_ext d) + length (spec_ext ?l))"
    using extendNibble_spec [OF l, of "pre @ ?h # spec_ext d" "v @ rest"]
    by (simp add: b)
  have sl: "slice buf (length pre + 1 + length (spec_ext d) + length (spec_ext ?l))
      (length pre + 1 + length (spec_ext d) + length (spec_ext ?l) + ?l) = v"
    using slice_middle [of "pre @ ?h # spec_ext d @ spec_ext ?l" v rest]
    by (simp add: b add.assoc)
  have n15: "spec_nibble d \<noteq> 15" "spec_nibble ?l \<noteq> 15"
    using rd rl by linarith+
  have len: "length pre + length (spec_option d v)
      = length pre + 1 + length (spec_ext d) + length (spec_ext ?l) + ?l"
    by (simp add: spec_option_def)
  show ?thesis
    unfolding len
    apply (subst parseOptions.simps)
    apply (simp only: option.case at ne hd hl n15 e1 e2 sl if_True
        if_False Let_def prod.case numPlus_def simp_thms map_option_case)
    done
qed

lemma parseOptions_stop:
  assumes "tail = [] \<or> hd tail = 0xFF"
  shows "parseOptions (pre @ tail) (Some (length pre)) cur acc = (acc, Some (length pre))"
proof (cases tail)
  case Nil
  then show ?thesis by (subst parseOptions.simps) simp
next
  case (Cons b bs)
  with assms have "b = 0xFF" by simp
  with Cons show ?thesis by (subst parseOptions.simps) simp
qed

lemma parseOptions_spec_options:
  assumes "sorted (map fst opts)"
    and "\<forall>(n, v) \<in> set opts. prev \<le> n \<and> n - prev < 65805 \<and> length v < 65805"
    and "tail = [] \<or> hd tail = 0xFF"
  shows "parseOptions (pre @ spec_options prev opts @ tail) (Some (length pre)) (Some prev) acc
    = (foldl (\<lambda>a (n, v). addOption a (getOptionName (Some n)) v) acc opts,
       Some (length pre + length (spec_options prev opts)))"
  using assms(1,2)
proof (induction opts arbitrary: pre prev acc)
  case Nil
  show ?case using parseOptions_stop [OF assms(3), of pre] by simp
next
  case (Cons o1 opts)
  obtain n v where o1: "o1 = (n, v)" by (cases o1)
  from Cons.prems o1 have r: "prev \<le> n" "n - prev < 65805" "length v < 65805" by auto
  let ?one = "spec_option (n - prev) v"
  let ?buf = "pre @ spec_options prev (o1 # opts) @ tail"
  have buf: "?buf = pre @ ?one @ (spec_options n opts @ tail)" by (simp add: o1)
  have buf': "?buf = (pre @ ?one) @ spec_options n opts @ tail" by (simp add: o1)
  have cur: "prev + (n - prev) = n" using r by simp
  have step: "parseOptions ?buf (Some (length pre)) (Some prev) acc
      = parseOptions ?buf (Some (length (pre @ ?one))) (Some n)
          (addOption acc (getOptionName (Some n)) v)"
    using parseOptions_option [OF r(2,3) buf, of prev acc] by (simp only: cur length_append)
  have "sorted (map fst opts)" using Cons.prems(1) by simp
  moreover have "\<forall>(m, w) \<in> set opts. n \<le> m \<and> m - n < 65805 \<and> length w < 65805"
    using Cons.prems(1,2) o1 by fastforce
  ultimately have ih: "parseOptions ((pre @ ?one) @ spec_options n opts @ tail)
      (Some (length (pre @ ?one))) (Some n) (addOption acc (getOptionName (Some n)) v)
    = (foldl (\<lambda>a (n, v). addOption a (getOptionName (Some n)) v)
         (addOption acc (getOptionName (Some n)) v) opts,
       Some (length (pre @ ?one) + length (spec_options n opts)))"
    by (rule Cons.IH)
  show ?case
    unfolding step unfolding buf' ih
    by (simp add: o1)
qed

subsection \<open>The names of the decoded options\<close>

lemma showNat_spec: "showNat n = spec_decimal n"
proof (induction n rule: showNat.induct)
  case (1 n)
  show ?case
  proof (cases "n < 10")
    case True
    then show ?thesis by (subst showNat.simps, subst spec_decimal.simps) simp
  next
    case False
    with 1 have "showNat (n div 10) = spec_decimal (n div 10)" by simp
    with False show ?thesis by (subst showNat.simps, subst spec_decimal.simps) simp
  qed
qed

lemma getOptionName_spec: "getOptionName (Some n) = spec_optionName n"
  by (simp add: getOptionName_def spec_optionName_def reverseMap_def spec_registry_def
      showNat_spec)

lemma spec_decimal_inj:
  assumes "spec_decimal n = spec_decimal m"
  shows "n = m"
proof -
  have "n = foldl (\<lambda>acc d. 10 * acc + d) 0
      (map (\<lambda>c. unat (of_char c :: byte) - 48) (spec_decimal n))"
    by (simp only: decimal_value)
  also have "\<dots> = foldl (\<lambda>acc d. 10 * acc + d) 0
      (map (\<lambda>c. unat (of_char c :: byte) - 48) (spec_decimal m))"
    by (simp only: assms)
  also have "\<dots> = m" by (rule decimal_value)
  finally show ?thesis .
qed

lemma spec_registry_cases:
  assumes "map_of spec_registry n = Some s"
  shows "(n = 3 \<and> s = ''uri-host'') \<or> (n = 7 \<and> s = ''uri-port'')
      \<or> (n = 11 \<and> s = ''uri-path'') \<or> (n = 12 \<and> s = ''content-format'')
      \<or> (n = 15 \<and> s = ''uri-query'') \<or> (n = 17 \<and> s = ''accept'')"
  using assms by (simp add: spec_registry_def split: if_splits)

lemma spec_registry_inj:
  assumes "map_of spec_registry n = Some s" "map_of spec_registry m = Some s"
  shows "n = m"
  using spec_registry_cases [OF assms(1)] spec_registry_cases [OF assms(2)] by auto

lemma spec_registry_hd:
  assumes "map_of spec_registry n = Some s"
  shows "s \<noteq> ''option-'' @ t"
  using spec_registry_cases [OF assms] by auto

lemma spec_optionName_inj:
  assumes "spec_optionName n = spec_optionName m"
  shows "n = m"
proof (cases "map_of spec_registry n")
  case None
  note n = None
  show ?thesis
  proof (cases "map_of spec_registry m")
    case None
    with n assms have "spec_decimal n = spec_decimal m" by (simp add: spec_optionName_def)
    then show ?thesis by (rule spec_decimal_inj)
  next
    case (Some s)
    with n assms have "s = ''option-'' @ spec_decimal n" by (simp add: spec_optionName_def)
    with spec_registry_hd [OF Some] show ?thesis by blast
  qed
next
  case (Some s)
  note n = Some
  show ?thesis
  proof (cases "map_of spec_registry m")
    case None
    with n assms have "s = ''option-'' @ spec_decimal m" by (simp add: spec_optionName_def)
    with spec_registry_hd [OF n] show ?thesis by blast
  next
    case (Some t)
    with n assms have "t = s" by (simp add: spec_optionName_def)
    with n Some show ?thesis using spec_registry_inj by blast
  qed
qed

subsection \<open>Grouping by name\<close>

lemma spec_firsts_set: "set (spec_firsts ks) = set ks"
  by (induction ks) auto

lemma spec_firsts_distinct: "distinct (spec_firsts ks)"
  by (induction ks) (auto simp: spec_firsts_set)

lemma spec_firsts_snoc:
  "spec_firsts (ks @ [n]) = (if n \<in> set ks then spec_firsts ks else spec_firsts ks @ [n])"
  by (induction ks) auto

lemma addOption_named:
  assumes "distinct ks"
  shows "addOption (map (\<lambda>k. (spec_optionName k, g k)) ks) (spec_optionName n) v
    = (if n \<in> set ks
       then map (\<lambda>k. (spec_optionName k, if k = n then g k @ [v] else g k)) ks
       else map (\<lambda>k. (spec_optionName k, g k)) ks @ [(spec_optionName n, [v])])"
  using assms
proof (induction ks)
  case Nil
  show ?case by simp
next
  case (Cons k ks)
  show ?case
  proof (cases "k = n")
    case True
    with Cons.prems have "n \<notin> set ks" by simp
    then have "map (\<lambda>k. (spec_optionName k, if k = n then g k @ [v] else g k)) ks
        = map (\<lambda>k. (spec_optionName k, g k)) ks"
      by (intro map_cong) auto
    with True show ?thesis by simp
  next
    case False
    then have "spec_optionName k \<noteq> spec_optionName n" using spec_optionName_inj by blast
    with False Cons show ?thesis by simp
  qed
qed

lemma spec_grouped_snoc:
  "spec_grouped (opts @ [(n, v)]) = addOption (spec_grouped opts) (spec_optionName n) v"
proof -
  let ?ks = "spec_firsts (map fst opts)"
  let ?g = "\<lambda>k. map snd (filter (\<lambda>opt. fst opt = k) opts)"
  have a: "addOption (spec_grouped opts) (spec_optionName n) v
    = (if n \<in> set ?ks
       then map (\<lambda>k. (spec_optionName k, if k = n then ?g k @ [v] else ?g k)) ?ks
       else map (\<lambda>k. (spec_optionName k, ?g k)) ?ks @ [(spec_optionName n, [v])])"
    unfolding spec_grouped_def by (rule addOption_named) (rule spec_firsts_distinct)
  have m: "n \<in> set ?ks \<longleftrightarrow> n \<in> fst ` set opts" by (simp add: spec_firsts_set)
  have g: "map snd (filter (\<lambda>opt. fst opt = k) (opts @ [(n, v)]))
      = (if k = n then ?g k @ [v] else ?g k)" for k
    by auto
  have g0: "?g n = []" if "n \<notin> fst ` set opts"
    using that by (auto simp: filter_empty_conv)
  show ?thesis
  proof (cases "n \<in> fst ` set opts")
    case True
    then show ?thesis
      unfolding a by (simp add: spec_grouped_def spec_firsts_snoc m g del: filter_append)
  next
    case False
    have "map (\<lambda>k. (spec_optionName k, if k = n then ?g k @ [v] else ?g k)) ?ks
        = map (\<lambda>k. (spec_optionName k, ?g k)) ?ks"
      using False by (intro map_cong) (auto simp: spec_firsts_set)
    with False show ?thesis
      unfolding a
      by (simp add: spec_grouped_def spec_firsts_snoc m g g0 del: filter_append)
  qed
qed

lemma foldl_addOption_spec:
  "foldl (\<lambda>a (n, v). addOption a (getOptionName (Some n)) v) [] opts = spec_grouped opts"
proof (induction opts rule: rev_induct)
  case Nil
  show ?case by (simp add: spec_grouped_def)
next
  case (snoc x xs)
  obtain n v where x: "x = (n, v)" by (cases x)
  from snoc show ?case
    by (simp add: x spec_grouped_snoc getOptionName_spec)
qed

subsection \<open>The options encodeOptions writes\<close>

lemma encodeSorted_spec:
  assumes "sorted (map fst opts)"
    and "\<forall>(n, v) \<in> set opts. prev \<le> n \<and> n < 65536 \<and> length (optionValueBytes v) < 65805"
  shows "map toUint8 (encodeSorted (Num (int prev)) (map (\<lambda>(n, v). (Num (int n), v)) opts))
    = spec_options prev (map (\<lambda>(n, v). (n, optionValueBytes v)) opts)"
  using assms
proof (induction opts arbitrary: prev)
  case Nil
  show ?case by simp
next
  case (Cons o1 opts)
  obtain n v where o1: "o1 = (n, v)" by (cases o1)
  from Cons.prems o1 have r: "prev \<le> n" "n < 65536" "length (optionValueBytes v) < 65805"
    by auto
  have "\<bar>int n - int prev\<bar> < 2 ^ 53" using r by simp
  then have "numMinus (Num (int n)) (Num (int prev)) = Num (int n - int prev)"
    by (rule numMinus_small)
  also have "int n - int prev = int (n - prev)" using r by simp
  finally have m: "numMinus (Num (int n)) (Num (int prev)) = Num (int (n - prev))" .
  have d: "n - prev < 65805" using r by simp
  have "sorted (map fst opts)" using Cons.prems(1) by simp
  moreover have "\<forall>(m, w) \<in> set opts. n \<le> m \<and> m < 65536 \<and> length (optionValueBytes w) < 65805"
    using Cons.prems(1,2) o1 by fastforce
  ultimately have ih: "map toUint8 (encodeSorted (Num (int n)) (map (\<lambda>(n, v). (Num (int n), v)) opts))
      = spec_options n (map (\<lambda>(n, v). (n, optionValueBytes v)) opts)"
    by (rule Cons.IH)
  show ?case
    unfolding o1
    by (simp add: Let_def m header_bytes [OF d r(3)] ih spec_option_def comp_def toUint8_uint
        del: numMinus.simps)
qed

subsection \<open>Parsing a message laid out as the RFC says\<close>

lemma uint_byte_less: "uint (w :: byte) < 256"
  using uint_lt2p [of w] by simp

lemma byte_shr:
  fixes b :: byte
  shows "js_shr (int (unat b)) k = int (unat b div 2 ^ k)"
proof -
  have "uint b < 2147483648" using uint_byte_less [of b] by linarith
  then have "js_shr (uint b) k = uint b div 2 ^ k"
    by (intro js_shr_nonneg) simp_all
  then show ?thesis by (simp add: zdiv_int)
qed

lemma small_and:
  assumes "x < 256" "k < 31"
  shows "js_and (int x) (2 ^ k - 1) = int (x mod 2 ^ k)"
proof -
  have "js_and (int x) (2 ^ k - 1) = int x mod 2 ^ k"
    using assms by (intro js_and_mask) simp_all
  then show ?thesis by (simp add: zmod_int)
qed

lemma header_fields:
  fixes b0 b1 b2 b3 :: byte
  shows "js_and (js_shr (int (unat b0)) 6) 0x03 = int (unat b0 div 64)"
    and "js_and (js_shr (int (unat b0)) 4) 0x03 = int (unat b0 div 16 mod 4)"
    and "nat (js_and (int (unat b0)) 0x0F) = unat (b0 AND 0x0F)"
    and "js_and (js_shr (int (unat b1)) 5) 0x07 = int (unat b1 div 32)"
    and "js_and (int (unat b1)) 0x1F = int (unat b1 mod 32)"
    and "js_or (js_shl (int (unat b2)) 8) (int (unat b3)) = int (256 * unat b2 + unat b3)"
proof -
  have r: "unat b0 < 256" "unat b1 < 256" "unat b2 < 256" "unat b3 < 256"
    by (rule unat_byte_less)+
  have d: "unat b0 div 64 < 256" "unat b0 div 16 < 256" "unat b1 div 32 < 256"
    using r by simp_all
  have q: "unat b0 div 64 < 4" "unat b1 div 32 < 8" using r by simp_all
  show "js_and (js_shr (int (unat b0)) 6) 0x03 = int (unat b0 div 64)"
    unfolding byte_shr using small_and [OF d(1), of 2] q by simp
  show "js_and (js_shr (int (unat b0)) 4) 0x03 = int (unat b0 div 16 mod 4)"
    unfolding byte_shr using small_and [OF d(2), of 2] by simp
  show "nat (js_and (int (unat b0)) 0x0F) = unat (b0 AND 0x0F)"
    using small_and [OF r(1), of 4] by (simp add: low_nibble)
  show "js_and (js_shr (int (unat b1)) 5) 0x07 = int (unat b1 div 32)"
    unfolding byte_shr using small_and [OF d(3), of 3] q by simp
  show "js_and (int (unat b1)) 0x1F = int (unat b1 mod 32)"
    using small_and [OF r(2), of 5] by simp
  have u: "uint b2 < 256" "uint b3 < 256" by (rule uint_byte_less)+
  then have "uint b2 * 2 ^ 8 + uint b3 < 2147483648" by simp
  with u have "js_or (js_shl (uint b2) 8) (uint b3) = uint b2 * 2 ^ 8 + uint b3"
    by (intro js_or_shl) simp_all
  then have "js_or (js_shl (int (unat b2)) 8) (int (unat b3)) = int (unat b2) * 2 ^ 8 + int (unat b3)"
    by simp
  then show "js_or (js_shl (int (unat b2)) 8) (int (unat b3)) = int (256 * unat b2 + unat b3)"
    by simp
qed

lemma parseMessage_wire:
  fixes b0 b1 b2 b3 :: byte and token :: "byte list" and pl :: "byte list option"
  assumes tok: "length token = unat (b0 AND 0x0F)"
    and s: "sorted (map fst opts)"
    and v: "\<forall>(n, v) \<in> set opts. n < 65536 \<and> length v < 65805"
  defines "tail \<equiv> (case pl of None \<Rightarrow> [] | Some bs \<Rightarrow> 0xFF # bs)"
  shows "parseMessage ([b0, b1, b2, b3] @ token @ spec_options 0 opts @ tail)
    = \<lparr>msg_version = int (unat b0 div 64), msg_type = int (unat b0 div 16 mod 4),
        msg_code = Some (int (unat b1)), msg_codeClass = int (unat b1 div 32),
        msg_codeDetail = int (unat b1 mod 32), msg_messageId = int (256 * unat b2 + unat b3),
        msg_token = token, msg_options = spec_grouped opts, msg_payload = pl\<rparr>"
proof -
  let ?pre = "[b0, b1, b2, b3] @ token"
  let ?enc = "spec_options 0 opts"
  let ?t = "unat (b0 AND 0x0F)"
  define buf where "buf = ?pre @ ?enc @ tail"
  define k where "k = 4 + ?t + length ?enc"
  have lp: "length ?pre = 4 + ?t" using tok by simp
  have r0: "readByte buf 0 = Some (unat b0)" by (simp add: readByte_def buf_def)
  have r1: "readByte buf 1 = Some (unat b1)" by (simp add: readByte_def buf_def)
  have r2: "readByte buf 2 = Some (unat b2)" by (simp add: readByte_def buf_def)
  have r3: "readByte buf 3 = Some (unat b3)" by (simp add: readByte_def buf_def)
  have tl: "tail = [] \<or> hd tail = 0xFF" by (simp add: tail_def split: option.splits)
  have sl: "(if 0 < ?t then slice buf 4 (4 + ?t) else []) = token"
    using tok by (cases "?t = 0") (simp_all add: slice_def buf_def)
  have v': "\<forall>(n, v) \<in> set opts. 0 \<le> n \<and> n - 0 < 65805 \<and> length v < 65805"
    using v by fastforce
  have "parseOptions (?pre @ ?enc @ tail) (Some (length ?pre)) (Some 0) []
      = (foldl (\<lambda>a (n, v). addOption a (getOptionName (Some n)) v) [] opts,
         Some (length ?pre + length ?enc))"
    using s v' tl by (rule parseOptions_spec_options)
  then have po: "parseOptions buf (Some (4 + ?t)) (Some 0) [] = (spec_grouped opts, Some k)"
    unfolding lp buf_def k_def by (simp only: foldl_addOption_spec)
  have pay: "(if k < length buf \<and> buf ! k = 0xFF then Some (drop (k + 1) buf) else None) = pl"
  proof (cases pl)
    case None
    then show ?thesis using tok by (simp add: tail_def buf_def k_def)
  next
    case (Some bs)
    have b: "buf = (?pre @ ?enc) @ 0xFF # bs" by (simp add: buf_def tail_def Some)
    have kl: "k = length (?pre @ ?enc)" using tok by (simp add: k_def)
    have "buf ! k = 0xFF" unfolding b kl by (rule nth_append_length)
    moreover have "drop (k + 1) buf = bs" unfolding b kl by simp
    moreover have "k < length buf" unfolding b kl by simp
    ultimately show ?thesis by (simp add: Some)
  qed
  have "parseMessage buf
    = \<lparr>msg_version = int (unat b0 div 64), msg_type = int (unat b0 div 16 mod 4),
        msg_code = Some (int (unat b1)), msg_codeClass = int (unat b1 div 32),
        msg_codeDetail = int (unat b1 mod 32), msg_messageId = int (256 * unat b2 + unat b3),
        msg_token = token, msg_options = spec_grouped opts, msg_payload = pl\<rparr>"
    unfolding parseMessage_def
    by (simp only: r0 r1 r2 r3 optInt_def option.case option.map Let_def
        header_fields sl po pay prod.case)
  then show ?thesis by (simp only: buf_def append_assoc)
qed

subsection \<open>The order of the options on the wire\<close>

lemma encodeOptions_Num:
  assumes "numberedOptions options = map (\<lambda>(n, v). (Num n, v)) ents"
  shows "encodeOptions engine options =
     (if \<exists>(n, v) \<in> set ents. engine_maxArgs engine < length (optionValueBytes v)
      then Inl RangeError
      else Inr (encodeSorted (Num 0) (map (\<lambda>(n, v). (Num n, v)) (sort_key fst ents))))"
proof -
  have "list_ex (\<lambda>(number, v). engine_maxArgs engine < length (optionValueBytes v))
      (map (\<lambda>(n, v). (Num n, v)) (sort_key fst ents))
    \<longleftrightarrow> (\<exists>(n, v) \<in> set ents. engine_maxArgs engine < length (optionValueBytes v))"
    by (force simp: list_ex_iff)
  then show ?thesis
    by (simp add: encodeOptions_def sortedOptions_Num [OF assms] Let_def)
qed

lemma numberedOptions_permuted:
  assumes "mset options' = mset options"
    and "numberedOptions options = map (\<lambda>(n, v). (Num n, v)) ents"
  obtains ents' where "numberedOptions options' = map (\<lambda>(n, v). (Num n, v)) ents'"
    and "mset ents' = mset ents"
proof -
  let ?f = "\<lambda>(n, v). (Num n, v) :: jsnumber \<times> option_value"
  let ?g = "\<lambda>(x, v). (numInt x, v) :: int \<times> option_value"
  define ents' where "ents' = map ?g (numberedOptions options')"
  have gf: "?g (?f e) = e" for e by (cases e) (simp add: numInt_def)
  have m: "mset (numberedOptions options') = mset (map ?f ents)"
    using assms by (simp add: numberedOptions_def flip: assms(2))
  then have "set (numberedOptions options') = set (map ?f ents)" by (rule mset_eq_setD)
  then have "\<forall>e \<in> set (numberedOptions options'). ?f (?g e) = e"
    using gf by (metis (no_types, lifting) image_iff list.set_map)
  then have 1: "numberedOptions options' = map ?f ents'"
    unfolding ents'_def by (simp add: map_idI)
  have "mset ents' = image_mset ?g (mset (numberedOptions options'))"
    by (simp add: ents'_def)
  also have "\<dots> = image_mset ?g (image_mset ?f (mset ents))" unfolding m by simp
  also have "\<dots> = mset ents"
    by (simp add: image_mset.compositionality comp_def gf)
  finally have 2: "mset ents' = mset ents" .
  from 1 2 show ?thesis by (rule that)
qed

lemma encodeOptions_permuted:
  assumes "numberedOptions options = map (\<lambda>(n, v). (Num n, v)) ents"
    and "distinct (map fst ents)" and "mset options' = mset options"
  shows "encodeOptions engine options' = encodeOptions engine options"
proof -
  from assms(3,1) obtain ents' where n': "numberedOptions options' = map (\<lambda>(n, v). (Num n, v)) ents'"
    and m: "mset ents' = mset ents"
    by (rule numberedOptions_permuted)
  have s: "set ents' = set ents" using m by (rule mset_eq_setD)
  have "mset (map fst ents') = mset (map fst ents)" using m by simp
  then have "distinct (map fst ents')" using assms(2) by (metis mset_eq_imp_distinct_iff)
  then have i: "inj_on fst (set ents')" by (simp add: distinct_map)
  have "mset ents' = mset (sort_key fst ents)" using m by simp
  moreover note i
  moreover have "sorted (map fst (sort_key fst ents))" by simp
  ultimately have "sort_key fst ents' = sort_key fst ents" by (rule sort_key_inj_key_eq)
  then show ?thesis
    by (simp add: encodeOptions_Num [OF n'] encodeOptions_Num [OF assms(1)] s)
qed

lemma spec_decimal_15: "spec_decimal 15 = ''15''"
  by (simp add: spec_decimal.simps char_of_eq_iff)

lemma getOptionNumber_15: "getOptionNumber ''15'' = Num 15"
  using getOptionNumber_decimal [of 15] by (simp add: spec_decimal_15 toNumber_small)

lemma spec_decimal_11: "spec_decimal 11 = ''11''"
  by (simp add: spec_decimal.simps char_of_eq_iff)

lemma getOptionNumber_11: "getOptionNumber ''11'' = Num 11"
  using getOptionNumber_decimal [of 11] by (simp add: spec_decimal_11 toNumber_small)

lemma getOptionNumber_uri_path: "getOptionNumber ''uri-path'' = Num 11"
  using getOptionNumber_spec [of "''uri-path''" 11]
  by (simp add: spec_keyNames_def spec_registry_def)

lemma getOptionNumber_uri_query: "getOptionNumber ''uri-query'' = Num 15"
  using getOptionNumber_spec [of "''uri-query''" 15]
  by (simp add: spec_keyNames_def spec_registry_def)

lemma encodeSorted_example:
  "encodeSorted (Num 0) [(Num 11, OString [0x61]), (Num 15, OString [0x62])]
     = [0xB1, 0x61, 0x41, 0x62]"
  by (simp add: optionHeader_Num optionValueBytes_def toNumber_small js_or_def js_shl_def
      toInt32_def)

lemma encodeOptions_example:
  assumes "1 \<le> engine_maxArgs engine"
  shows "encodeOptions engine [(''15'', OString [0x62]), (''11'', OString [0x61])]
     = Inr [0xB1, 0x61, 0x41, 0x62]"
proof -
  have "numberedOptions [(''15'', OString [0x62]), (''11'', OString [0x61])]
      = map (\<lambda>(n, v). (Num n, v)) [(15, OString [0x62]), (11, OString [0x61])]"
    by (simp add: numberedOptions_def getOptionNumber_15 getOptionNumber_11)
  from encodeOptions_Num [OF this, of engine] assms show ?thesis
    by (simp add: optionValueBytes_def encodeSorted_example del: encodeSorted.simps)
qed

lemma encodeOptions_example_sorted:
  assumes "1 \<le> engine_maxArgs engine"
  shows "encodeOptions engine [(''11'', OString [0x61]), (''15'', OString [0x62])]
     = Inr [0xB1, 0x61, 0x41, 0x62]"
proof -
  have "numberedOptions [(''11'', OString [0x61]), (''15'', OString [0x62])]
      = map (\<lambda>(n, v). (Num n, v)) [(11, OString [0x61]), (15, OString [0x62])]"
    by (simp add: numberedOptions_def getOptionNumber_15 getOptionNumber_11)
  from encodeOptions_Num [OF this, of engine] assms show ?thesis
    by (simp add: optionValueBytes_def encodeSorted_example del: encodeSorted.simps)
qed

lemma encodeOptions_named:
  assumes "1 \<le> engine_maxArgs engine"
  shows "encodeOptions engine [(''uri-query'', OString [0x62]), (''uri-path'', OString [0x61])]
     = Inr [0xB1, 0x61, 0x41, 0x62]"
proof -
  have "numberedOptions [(''uri-query'', OString [0x62]), (''uri-path'', OString [0x61])]
      = map (\<lambda>(n, v). (Num n, v)) [(15, OString [0x62]), (11, OString [0x61])]"
    by (simp add: numberedOptions_def getOptionNumber_uri_query getOptionNumber_uri_path)
  from encodeOptions_Num [OF this, of engine] assms show ?thesis
    by (simp add: optionValueBytes_def encodeSorted_example del: encodeSorted.simps)
qed

text \<open>A key that names no option has the number NaN; alone in the options it is still
  encoded, with the delta nibble 14 and two zero bytes.\<close>

lemma encodeOptions_unnamed_key:
  assumes "1 \<le> engine_maxArgs engine"
  shows "encodeOptions engine [(''foo'', OString [0x78])] = Inr [0xE1, 0x00, 0x00, 0x78]"
proof -
  have n: "getOptionNumber ''foo'' = NaN"
    by (simp add: getOptionNumber_def optionMap_def toLowerCase_def parseInt_def
        isWhiteSpace_def digitVal_def)
  have c: "consistentComparator [NaN]"
    by (simp add: consistentComparator_def compareSign_def)
  show ?thesis
    using assms
    by (simp add: encodeOptions_def sortedOptions_def numberedOptions_def n c stableSort_def
        optionValueBytes_def optionHeader_def numLess_def numInt_def lengthNibble_def
        js_or_def js_shl_def js_shr_def js_and_def toInt32_def)
qed

text \<open>Two keys that round to the same number (\<open>2^53 + 1\<close> is not a binary64 value) keep
  the order in which they were given.\<close>

lemma toNumber_rounds: "toNumber 9007199254740993 = Num 9007199254740992"
  by (simp add: toNumber_def roundDouble_def bitLength.simps Let_def)

lemma toNumber_2_53: "toNumber 9007199254740992 = Num 9007199254740992"
  by (simp add: toNumber_def roundDouble_def bitLength.simps Let_def)

lemma getOptionNumber_rounds:
  "getOptionNumber ''9007199254740993'' = Num 9007199254740992"
proof -
  have "spec_decimal 9007199254740993 = ''9007199254740993''"
    by (simp add: spec_decimal.simps char_of_eq_iff)
  with getOptionNumber_decimal [of 9007199254740993] show ?thesis
    by (simp add: toNumber_rounds)
qed

lemma encodeOptions_rounded_keys:
  assumes "1 \<le> engine_maxArgs engine"
  shows "encodeOptions engine
      [(''9007199254740993'', OString [0x61]), (''9007199254740992'', OString [0x62])]
    = Inr [0xE1, - 2, 0xF3, 0x61, 0x01, 0x62]"
    and "encodeOptions engine
      [(''9007199254740992'', OString [0x62]), (''9007199254740993'', OString [0x61])]
    = Inr [0xE1, - 2, 0xF3, 0x62, 0x01, 0x61]"
proof -
  have e: "getOptionNumber ''9007199254740992'' = Num 9007199254740992"
  proof -
    have "spec_decimal 9007199254740992 = ''9007199254740992''"
      by (simp add: spec_decimal.simps char_of_eq_iff)
    with getOptionNumber_decimal [of 9007199254740992] show ?thesis
      by (simp add: toNumber_2_53)
  qed
  have 1: "numberedOptions
      [(''9007199254740993'', OString [0x61]), (''9007199254740992'', OString [0x62])]
    = map (\<lambda>(n, v). (Num n, v))
        [(9007199254740992, OString [0x61]), (9007199254740992, OString [0x62])]"
    by (simp add: numberedOptions_def getOptionNumber_rounds e)
  have 2: "numberedOptions
      [(''9007199254740992'', OString [0x62]), (''9007199254740993'', OString [0x61])]
    = map (\<lambda>(n, v). (Num n, v))
        [(9007199254740992, OString [0x62]), (9007199254740992, OString [0x61])]"
    by (simp add: numberedOptions_def getOptionNumber_rounds e)
  show "encodeOptions engine
      [(''9007199254740993'', OString [0x61]), (''9007199254740992'', OString [0x62])]
    = Inr [0xE1, - 2, 0xF3, 0x61, 0x01, 0x62]"
    using encodeOptions_Num [OF 1, of engine] assms
    by (simp add: optionValueBytes_def optionHeader_def numLess_def numInt_def toNumber_small
        toNumber_2_53 Let_def lengthNibble_def js_or_def js_shl_def js_shr_def js_and_def
        toInt32_def)
  show "encodeOptions engine
      [(''9007199254740992'', OString [0x62]), (''9007199254740993'', OString [0x61])]
    = Inr [0xE1, - 2, 0xF3, 0x62, 0x01, 0x61]"
    using encodeOptions_Num [OF 2, of engine] assms
    by (simp add: optionValueBytes_def optionHeader_def numLess_def numInt_def toNumber_small
        toNumber_2_53 Let_def lengthNibble_def js_or_def js_shl_def js_shr_def js_and_def
        toInt32_def)
qed

subsection \<open>Parsing what createMessage wrote\<close>

lemma insort_key_map_mono:
  assumes "\<And>x y. k2 (g x) \<le> k2 (g y) \<longleftrightarrow> k1 x \<le> k1 y"
  shows "insort_key k2 (g x) (map g ys) = map g (insort_key k1 x ys)"
  by (induction ys) (simp_all add: assms)

lemma sort_key_map_mono:
  assumes "\<And>x y. k2 (g x) \<le> k2 (g y) \<longleftrightarrow> k1 x \<le> k1 y"
  shows "sort_key k2 (map g xs) = map g (sort_key k1 xs)"
  by (induction xs) (simp_all add: insort_key_map_mono [of k2 g k1, OF assms])

lemma entries_numbered:
  assumes "list_all2 spec_entry xs ys" and "\<forall>(n, v) \<in> set ys. n < 65536"
  shows "\<exists>ents. map (\<lambda>(key, v). (getOptionNumber key, v)) xs
             = map (\<lambda>(n, v). (Num (int n), v)) ents
           \<and> map (\<lambda>(n, v). (n, optionValueBytes v)) ents = ys"
  using assms
proof (induction rule: list_all2_induct)
  case Nil
  show ?case by simp
next
  case (Cons x xs y ys)
  obtain key v where x: "x = (key, v)" by (cases x)
  obtain n bs where y: "y = (n, bs)" by (cases y)
  from Cons.hyps(1) have k: "spec_keyNames key n" and b: "spec_valueBytes v = Some bs"
    by (simp_all add: spec_entry_def x y)
  from Cons.prems have "n < 65536" by (simp add: y)
  then have "n < 2 ^ 53" by simp
  with k have g: "getOptionNumber key = Num (int n)" by (rule getOptionNumber_spec)
  from b have o: "optionValueBytes v = bs" by (rule optionValueBytes_spec)
  from Cons obtain ents where e: "map (\<lambda>(key, v). (getOptionNumber key, v)) xs
      = map (\<lambda>(n, v). (Num (int n), v)) ents"
    "map (\<lambda>(n, v). (n, optionValueBytes v)) ents = ys"
    by auto
  have "map (\<lambda>(key, v). (getOptionNumber key, v)) (x # xs)
      = map (\<lambda>(n, v). (Num (int n), v)) ((n, v) # ents)
    \<and> map (\<lambda>(n, v). (n, optionValueBytes v)) ((n, v) # ents) = y # ys"
    by (simp add: x y g o e)
  then show ?case by (rule exI [of _ "(n, v) # ents"])
qed

lemma value_in_spec_options:
  "(n, v) \<in> set opts \<Longrightarrow> length v \<le> length (spec_options prev opts)"
proof (induction opts arbitrary: prev)
  case Nil
  then show ?case by simp
next
  case (Cons o1 opts)
  obtain m w where o1: "o1 = (m, w)" by (cases o1)
  from Cons.prems have "(n, v) = (m, w) \<or> (n, v) \<in> set opts" by (simp add: o1)
  then show ?case
  proof
    assume "(n, v) = (m, w)"
    then show ?thesis by (simp add: o1 spec_option_def)
  next
    assume "(n, v) \<in> set opts"
    then have "length v \<le> length (spec_options m opts)" by (rule Cons.IH)
    then show ?thesis by (simp add: o1)
  qed
qed

lemma encodeOptions_spec:
  fixes opts :: "(nat \<times> byte list) list"
  assumes e: "list_all2 spec_entry (filter (\<lambda>(key, v). key \<noteq> ''payload'') options) opts"
    and r: "\<forall>(n, v) \<in> set opts. n < 65536 \<and> length v < 65805"
    and f: "length (spec_options 0 (sort_key fst opts)) \<le> engine_maxArgs engine"
  shows "\<exists>optionBytes. encodeOptions engine options = Inr optionBytes
           \<and> map toUint8 optionBytes = spec_options 0 (sort_key fst opts)"
proof -
  from r have "\<forall>(n, v) \<in> set opts. n < 65536" by auto
  with e obtain ents where n: "map (\<lambda>(key, v). (getOptionNumber key, v))
        (filter (\<lambda>(key, v). key \<noteq> ''payload'') options)
      = map (\<lambda>(n, v). (Num (int n), v)) ents"
    and o: "map (\<lambda>(n, v). (n, optionValueBytes v)) ents = opts"
    using entries_numbered by blast
  let ?i = "\<lambda>(n, v). (int n, v) :: int \<times> option_value"
  let ?b = "\<lambda>(n, v). (n, optionValueBytes v) :: nat \<times> byte list"
  let ?S = "sort_key fst ents"
  have num: "numberedOptions options = map (\<lambda>(n, v). (Num n, v)) (map ?i ents)"
    unfolding numberedOptions_def n by (simp add: comp_def case_prod_beta)
  have si: "sort_key fst (map ?i ents) = map ?i ?S"
    by (rule sort_key_map_mono) (simp add: case_prod_beta)
  have sb: "sort_key fst opts = map ?b ?S"
    unfolding o [symmetric] by (rule sort_key_map_mono) (simp add: case_prod_beta)
  have so: "map (\<lambda>(n, v). (Num n, v)) (map ?i ?S) = map (\<lambda>(n, v). (Num (int n), v)) ?S"
    by (simp add: comp_def case_prod_beta)
  have rs: "\<forall>(n, v) \<in> set ?S. 0 \<le> n \<and> n < 65536 \<and> length (optionValueBytes v) < 65805"
  proof -
    have "\<And>n v. (n, v) \<in> set ents \<Longrightarrow> (n, optionValueBytes v) \<in> set opts"
      unfolding o [symmetric] by force
    with r show ?thesis by fastforce
  qed
  have enc: "map toUint8 (encodeSorted (Num (int 0)) (map (\<lambda>(n, v). (Num (int n), v)) ?S))
      = spec_options 0 (map ?b ?S)"
    using rs by (intro encodeSorted_spec) simp_all
  have fit: "\<not> (\<exists>(n, v) \<in> set (map ?i ents). engine_maxArgs engine < length (optionValueBytes v))"
  proof
    assume "\<exists>(n, v) \<in> set (map ?i ents). engine_maxArgs engine < length (optionValueBytes v)"
    then obtain n v where m: "(n, v) \<in> set ents"
      and big: "engine_maxArgs engine < length (optionValueBytes v)" by auto
    from m have "(n, optionValueBytes v) \<in> set (map ?b ?S)" by force
    then have "length (optionValueBytes v) \<le> length (spec_options 0 (map ?b ?S))"
      by (rule value_in_spec_options)
    with f big show False unfolding sb by simp
  qed
  have "encodeOptions engine options
      = Inr (encodeSorted (Num 0) (map (\<lambda>(n, v). (Num (int n), v)) ?S))"
    unfolding encodeOptions_Num [OF num] si so using fit by simp
  with enc show ?thesis unfolding sb by simp
qed

lemma upt_4: "[0..<4] = [0, 1, 2, 3]"
  by code_simp

lemma generateToken_bytes: "generateToken rnd = [rnd 0, rnd 1, rnd 2, rnd 3]"
  by (simp add: generateToken_def upt_4)

lemma byte0_created:
  assumes "0 \<le> type" "type < 4"
  defines "b0 \<equiv> toUint8 (js_or (js_or (js_shl 1 6) (js_shl type 4)) 4)"
  shows "unat (b0 AND 0x0F) = 4" and "int (unat b0 div 64) = 1"
    and "int (unat b0 div 16 mod 4) = type" and "b0 = of_nat (64 + 16 * nat type + 4)"
proof -
  from assms(1,2) consider "type = 0" | "type = 1" | "type = 2" | "type = 3" by linarith
  then have b: "b0 = of_nat (64 + 16 * nat type + 4)"
    by cases (simp_all add: b0_def toUint8_def js_or_def js_shl_def toInt32_def)
  have "64 + 16 * nat type + 4 < 256" using assms(2) by simp
  then have "unat (of_nat (64 + 16 * nat type + 4) :: byte) = 64 + 16 * nat type + 4"
    by (rule unat_of_nat_byte)
  then have u: "unat b0 = 68 + 16 * nat type" unfolding b by simp
  have "nat type < 4" using assms(1,2) by simp
  with u show "unat (b0 AND 0x0F) = 4" and "int (unat b0 div 64) = 1"
    and "int (unat b0 div 16 mod 4) = type"
    using assms(1) by (simp_all add: low_nibble)
  show "b0 = of_nat (64 + 16 * nat type + 4)" by (rule b)
qed

lemma code_created:
  assumes "0 \<le> code" "code < 256"
  shows "int (unat (toUint8 code)) = code"
    and "int (unat (toUint8 code) div 32) = code div 32"
    and "int (unat (toUint8 code) mod 32) = code mod 32"
  using assms by (simp_all add: unat_toUint8 zdiv_int zmod_int)

lemma messageId_bytes:
  assumes "0 \<le> mid" "mid < 65536"
  shows "toUint8 (js_and (js_shr mid 8) 0xFF) = of_nat (nat mid div 256)"
    and "toUint8 (js_and mid 0xFF) = of_nat (nat mid)"
proof -
  have "js_shr mid 8 = mid div 2 ^ 8" using assms by (intro js_shr_nonneg) simp_all
  then have "toUint8 (js_and (js_shr mid 8) 0xFF) = toUint8 (mid div 256)"
    by (simp add: toUint8_js_and_FF)
  moreover have "0 \<le> mid div 256" using assms(1) by (simp add: pos_imp_zdiv_nonneg_iff)
  then have "of_nat (nat (mid div 256)) = toUint8 (mid div 256)" by (rule toUint8_nat)
  moreover have "nat mid div 256 = nat (mid div 256)" using assms(1) by (simp add: nat_div_distrib)
  ultimately show "toUint8 (js_and (js_shr mid 8) 0xFF) = of_nat (nat mid div 256)" by simp
  show "toUint8 (js_and mid 0xFF) = of_nat (nat mid)"
    using toUint8_nat [OF assms(1)] by (simp add: toUint8_js_and_FF)
qed

lemma messageId_created:
  assumes "0 \<le> mid" "mid < 65536"
  shows "int (256 * unat (toUint8 (js_and (js_shr mid 8) 0xFF)) + unat (toUint8 (js_and mid 0xFF)))
    = mid"
proof -
  have "js_shr mid 8 = mid div 2 ^ 8" using assms by (intro js_shr_nonneg) simp_all
  then have h: "toUint8 (js_and (js_shr mid 8) 0xFF) = toUint8 (mid div 256)"
    by (simp add: toUint8_js_and_FF)
  have "mid mod 256 mod 256 = mid mod 256" by simp
  then have "toUint8 (mid mod 256) = toUint8 mid" by (rule toUint8_cong)
  then have l: "toUint8 (js_and mid 0xFF) = toUint8 (mid mod 256)"
    by (simp add: toUint8_js_and_FF)
  have r: "0 \<le> mid div 256" "mid div 256 < 256" "0 \<le> mid mod 256" "mid mod 256 < 256"
    using assms by simp_all
  show ?thesis
    unfolding h l using r by (simp add: unat_toUint8)
qed

lemma payload_part:
  assumes "\<forall>n. P = Some (ONumber n) \<longrightarrow> 0 \<le> n"
    and "\<forall>bs. spec_payload P = Some bs \<longrightarrow> length bs \<le> engine_maxArgs engine"
  shows "(case P of
            None \<Rightarrow> Inr message
          | Some p \<Rightarrow>
              if truthy p then
                (case payloadBytes p of
                   Inl e \<Rightarrow> Inl e
                 | Inr bs \<Rightarrow> pushAll engine (message @ [0xFF]) (map uint bs))
              else Inr message)
    = Inr (message @ (case spec_payload P of None \<Rightarrow> [] | Some bs \<Rightarrow> 0xFF # map uint bs))"
proof (cases P)
  case None
  then show ?thesis by (simp add: spec_payload_def)
next
  case (Some p)
  show ?thesis
  proof (cases "spec_payload P")
    case None
    with Some assms(1) show ?thesis
      by (cases p) (auto simp: spec_payload_def truthy_def split: if_splits)
  next
    case (Some bs)
    note sp = Some
    with assms(2) have fit: "length bs \<le> engine_maxArgs engine" by blast
    show ?thesis
    proof (cases p)
      case (OString s)
      with \<open>P = Some p\<close> sp fit show ?thesis
        by (auto simp: spec_payload_def truthy_def payloadBytes_def pushAll_def
            split: if_splits)
    next
      case (ONumber n)
      with \<open>P = Some p\<close> assms(1) have "0 \<le> n" by simp
      with ONumber \<open>P = Some p\<close> sp fit show ?thesis
        by (auto simp: spec_payload_def truthy_def payloadBytes_def pushAll_def
            split: if_splits)
    next
      case (OBytes cs)
      with \<open>P = Some p\<close> sp fit show ?thesis
        by (auto simp: spec_payload_def truthy_def payloadBytes_def pushAll_def
            split: if_splits)
    qed
  qed
qed

lemma createMessage_bytes:
  assumes ob: "encodeOptions engine options = Inr optionBytes"
    and f: "4 \<le> engine_maxArgs engine" "length optionBytes \<le> engine_maxArgs engine"
    and p: "\<forall>n. map_of options ''payload'' = Some (ONumber n) \<longrightarrow> 0 \<le> n"
      "\<forall>bs. spec_payload (map_of options ''payload'') = Some bs
         \<longrightarrow> length bs \<le> engine_maxArgs engine"
  shows "createMessage engine rnd counter type code options
    = Inr \<lparr>created_bytes =
             [toUint8 (js_or (js_or (js_shl 1 6) (js_shl type 4)) 4), toUint8 code,
              toUint8 (js_and (js_shr counter 8) 0xFF), toUint8 (js_and counter 0xFF)]
             @ [rnd 0, rnd 1, rnd 2, rnd 3] @ map toUint8 optionBytes
             @ (case spec_payload (map_of options ''payload'') of
                  None \<Rightarrow> [] | Some bs \<Rightarrow> 0xFF # bs),
           created_messageId = counter, created_token = [rnd 0, rnd 1, rnd 2, rnd 3],
           next_messageId = counter + 1\<rparr>"
proof -
  have t: "toUint8 255 = 0xFF" by (simp add: toUint8_def)
  have u: "map (toUint8 \<circ> uint) bs = bs" for bs
    by (simp add: comp_def toUint8_uint)
  have pp: "map toUint8 (case spec_payload (map_of options ''payload'') of
        None \<Rightarrow> [] | Some bs \<Rightarrow> 0xFF # map uint bs)
      = (case spec_payload (map_of options ''payload'') of None \<Rightarrow> [] | Some bs \<Rightarrow> 0xFF # bs)"
    by (simp add: t u split: option.splits)
  show ?thesis
    unfolding createMessage_def generateToken_bytes
    using f
    by (simp add: Let_def ob pushAll_def payload_part [OF p] pp u comp_def toUint8_uint)
qed

text \<open>A message with a repeated option number, evaluated.\<close>

lemma getOptionNumber_content_format: "getOptionNumber ''content-format'' = Num 12"
  using getOptionNumber_spec [of "''content-format''" 12]
  by (simp add: spec_keyNames_def spec_registry_def)

lemma encodeOptions_sample:
  "encodeOptions \<lparr>engine_sort = id, engine_maxArgs = 65535\<rparr>
      [(''11'', OString [0x63]), (''content-format'', ONumber 60),
       (''uri-path'', OString [0x61, 0x62]), (''payload'', OBytes [1, 2, 3])]
     = Inr [0xB1, 0x63, 0x02, 0x61, 0x62, 0x11, 0x3C]"
proof -
  have "numberedOptions
      [(''11'', OString [0x63]), (''content-format'', ONumber 60),
       (''uri-path'', OString [0x61, 0x62]), (''payload'', OBytes [1, 2, 3])]
    = map (\<lambda>(n, v). (Num n, v))
        [(11, OString [0x63]), (12, ONumber 60), (11, OString [0x61, 0x62])]"
    by (simp add: numberedOptions_def getOptionNumber_11 getOptionNumber_content_format
        getOptionNumber_uri_path)
  from encodeOptions_Num [OF this, of "\<lparr>engine_sort = id, engine_maxArgs = 65535\<rparr>"]
  show ?thesis
    by (simp add: optionValueBytes_def encodeNumber_def optionHeader_Num toNumber_small
        toUint8_def js_or_def js_shl_def toInt32_def)
qed

lemma createMessage_sample:
  "createMessage \<lparr>engine_sort = id, engine_maxArgs = 65535\<rparr> ((!) [1, 2, 3, 4]) 1 0 1
      [(''11'', OString [0x63]), (''content-format'', ONumber 60),
       (''uri-path'', OString [0x61, 0x62]), (''payload'', OBytes [1, 2, 3])]
     = Inr \<lparr>created_bytes = [0x44, 0x01, 0x00, 0x01, 1, 2, 3, 4, 0xB1, 0x63, 0x02, 0x61, 0x62,
                0x11, 0x3C, 0xFF, 1, 2, 3],
             created_messageId = 1, created_token = [1, 2, 3, 4], next_messageId = 2\<rparr>"
  using createMessage_bytes [OF encodeOptions_sample, of "(!) [1, 2, 3, 4]" 1 0 1]
  by (simp add: spec_payload_def toUint8_def js_or_def js_shl_def js_shr_def js_and_def
      toInt32_def)

text \<open>A payload with more bytes than a call takes arguments makes \<open>createMessage\<close> throw.\<close>

lemma createMessage_payload_too_long:
  assumes "engine_maxArgs engine < length bs"
  shows "createMessage engine rnd counter type code [(''payload'', OBytes bs)] = Inl RangeError"
proof -
  have "encodeOptions engine [(''payload'', OBytes bs)] = Inr []"
    by (simp add: encodeOptions_def sortedOptions_def numberedOptions_def
        consistentComparator_def stableSort_def)
  then show ?thesis
    using assms
    by (simp add: createMessage_def Let_def pushAll_def truthy_def payloadBytes_def
        generateToken_bytes)
qed

text \<open>
  Claim C2. For every valid CoAP message (type 0 to 3, a one-byte code, a 16-bit message
  ID, the four-byte token \<open>createMessage\<close> draws, options with numbers below 65536 and
  values shorter than 65805 bytes, and an optional payload), whatever the order in which
  the caller lists the options, \<open>createMessage\<close> returns the bytes of the message, laid
  out as the specification says with the options in ascending order, and parsing them
  gives the message back: version 1, the same type, code, message ID and token, the
  options in ascending order of number (options with one number in the order given, their
  values under the name of the number), and the payload. The message is given the way the
  interface takes it: an entry of the options object stands for an option, its key naming
  the number and its value giving the bytes; the entry \<open>payload\<close> gives the payload. The
  token, the options and the payload each fit in one call's arguments.
\<close>

theorem C2_parseMessage_createMessage:
  fixes opts :: "(nat \<times> byte list) list"
  assumes "0 \<le> type" "type < 4" "0 \<le> code" "code < 256" "0 \<le> counter" "counter < 65536"
    and "list_all2 spec_entry (filter (\<lambda>(key, v). key \<noteq> ''payload'') options) opts"
    and "\<forall>(n, v) \<in> set opts. n < 65536 \<and> length v < 65805"
    and "\<forall>n. map_of options ''payload'' = Some (ONumber n) \<longrightarrow> 0 \<le> n"
    and "4 \<le> engine_maxArgs engine"
    and "length (spec_options 0 (sort_key fst opts)) \<le> engine_maxArgs engine"
    and "\<forall>bs. spec_payload (map_of options ''payload'') = Some bs
           \<longrightarrow> length bs \<le> engine_maxArgs engine"
  shows "createMessage engine rnd counter type code options
           = Inr \<lparr>created_bytes =
                    spec_message (nat type) (nat code) (nat counter) [rnd 0, rnd 1, rnd 2, rnd 3]
                      (sort_key fst opts) (spec_payload (map_of options ''payload'')),
                  created_messageId = counter,
                  created_token = [rnd 0, rnd 1, rnd 2, rnd 3],
                  next_messageId = counter + 1\<rparr> \<and>
         parseMessage
             (spec_message (nat type) (nat code) (nat counter) [rnd 0, rnd 1, rnd 2, rnd 3]
                (sort_key fst opts) (spec_payload (map_of options ''payload'')))
           = \<lparr>msg_version = 1, msg_type = type, msg_code = Some code,
               msg_codeClass = code div 32, msg_codeDetail = code mod 32,
               msg_messageId = counter, msg_token = [rnd 0, rnd 1, rnd 2, rnd 3],
               msg_options = spec_grouped (sort_key fst opts),
               msg_payload = spec_payload (map_of options ''payload'')\<rparr>"
proof -
  let ?b0 = "toUint8 (js_or (js_or (js_shl 1 6) (js_shl type 4)) 4)"
  let ?b1 = "toUint8 code"
  let ?b2 = "toUint8 (js_and (js_shr counter 8) 0xFF)"
  let ?b3 = "toUint8 (js_and counter 0xFF)"
  let ?token = "[rnd 0, rnd 1, rnd 2, rnd 3]"
  let ?S = "sort_key fst opts"
  let ?pl = "spec_payload (map_of options ''payload'')"
  from encodeOptions_spec [OF assms(7,8,11)]
  obtain optionBytes where ob: "encodeOptions engine options = Inr optionBytes"
    and wire: "map toUint8 optionBytes = spec_options 0 ?S" by blast
  have "length optionBytes = length (spec_options 0 ?S)"
    using wire by (metis length_map)
  then have fit: "length optionBytes \<le> engine_maxArgs engine" using assms(11) by simp
  define bytes where "bytes = [?b0, ?b1, ?b2, ?b3] @ ?token @ spec_options 0 ?S
      @ (case ?pl of None \<Rightarrow> [] | Some bs \<Rightarrow> 0xFF # bs)"
  have cm: "createMessage engine rnd counter type code options
      = Inr \<lparr>created_bytes = bytes, created_messageId = counter,
             created_token = ?token, next_messageId = counter + 1\<rparr>"
    unfolding bytes_def wire [symmetric]
    using ob assms(10) fit assms(9) assms(12) by (rule createMessage_bytes)
  have tok: "length ?token = unat (?b0 AND 0x0F)"
    using byte0_created(1) [OF assms(1,2)] by simp
  have srt: "sorted (map fst ?S)" by simp
  have rng: "\<forall>(n, v) \<in> set ?S. n < 65536 \<and> length v < 65805" using assms(8) by simp
  have "parseMessage bytes
    = \<lparr>msg_version = int (unat ?b0 div 64), msg_type = int (unat ?b0 div 16 mod 4),
        msg_code = Some (int (unat ?b1)), msg_codeClass = int (unat ?b1 div 32),
        msg_codeDetail = int (unat ?b1 mod 32),
        msg_messageId = int (256 * unat ?b2 + unat ?b3),
        msg_token = ?token, msg_options = spec_grouped ?S, msg_payload = ?pl\<rparr>"
    unfolding bytes_def using tok srt rng by (rule parseMessage_wire)
  then have pm: "parseMessage bytes
    = \<lparr>msg_version = 1, msg_type = type, msg_code = Some code,
        msg_codeClass = code div 32, msg_codeDetail = code mod 32,
        msg_messageId = counter, msg_token = ?token,
        msg_options = spec_grouped ?S, msg_payload = ?pl\<rparr>"
    by (simp only: byte0_created(2,3) [OF assms(1,2)] code_created [OF assms(3,4)]
        messageId_created [OF assms(5,6)])
  have "toUint8 code = of_nat (nat code)" using toUint8_nat [OF assms(3)] by simp
  then have sm: "bytes = spec_message (nat type) (nat code) (nat counter) ?token ?S ?pl"
    unfolding bytes_def spec_message_def
    by (simp only: byte0_created(4) [OF assms(1,2)] messageId_bytes [OF assms(5,6)])
      simp
  from cm pm show ?thesis unfolding sm by blast
qed

theorem C2_parseMessage_createMessage_witness:
  "createMessage \<lparr>engine_sort = id, engine_maxArgs = 65535\<rparr> ((!) [1, 2, 3, 4]) 1 0 1
      [(''11'', OString [0x63]), (''content-format'', ONumber 60),
       (''uri-path'', OString [0x61, 0x62]), (''payload'', OBytes [1, 2, 3])]
     = Inr \<lparr>created_bytes = [0x44, 0x01, 0x00, 0x01, 1, 2, 3, 4, 0xB1, 0x63, 0x02, 0x61, 0x62,
                0x11, 0x3C, 0xFF, 1, 2, 3],
             created_messageId = 1, created_token = [1, 2, 3, 4], next_messageId = 2\<rparr> \<and>
   parseMessage [0x44, 0x01, 0x00, 0x01, 1, 2, 3, 4, 0xB1, 0x63, 0x02, 0x61, 0x62, 0x11, 0x3C,
       0xFF, 1, 2, 3]
     = \<lparr>msg_version = 1, msg_type = 0, msg_code = Some 1, msg_codeClass = 0,
         msg_codeDetail = 1, msg_messageId = 1, msg_token = [1, 2, 3, 4],
         msg_options = [(''uri-path'', [[0x63], [0x61, 0x62]]), (''content-format'', [[0x3C]])],
         msg_payload = Some [1, 2, 3]\<rparr>"
  using C2_parseMessage_createMessage [where type = 0 and code = 1 and counter = 1
      and options = "[(''11'', OString [0x63]), (''content-format'', ONumber 60),
        (''uri-path'', OString [0x61, 0x62]), (''payload'', OBytes [1, 2, 3])]"
      and opts = "[(11, [0x63]), (12, [0x3C]), (11, [0x61, 0x62])]"
      and engine = "\<lparr>engine_sort = id, engine_maxArgs = 65535\<rparr>"
      and rnd = "(!) [1, 2, 3, 4]"]
  by (simp add: createMessage_sample spec_entry_def spec_keyNames_def spec_registry_def
      spec_decimal_11 spec_valueBytes_def spec_uintBytes_def spec_payload_def
      spec_option_def spec_nibble_def spec_ext_def spec_grouped_def spec_optionName_def
      spec_message_def)

subsection \<open>Absent and empty payloads\<close>

lemma no_marker_byte:
  assumes "0xFF \<notin> set buf"
  shows "msg_payload (parseMessage buf) = None"
proof -
  from assms have "\<And>k. k < length buf \<Longrightarrow> buf ! k \<noteq> 0xFF" by (metis nth_mem)
  then show ?thesis
    by (auto simp: parseMessage_def Let_def split: prod.splits option.splits)
qed

text \<open>The encoder itself writes a marker with nothing after it, for a payload that is an
  empty byte array.\<close>

lemma createMessage_empty_payload:
  assumes "4 \<le> engine_maxArgs engine"
  shows "createMessage engine rnd 1 0 1 [(''payload'', OBytes [])]
    = Inr \<lparr>created_bytes = [0x44, 0x01, 0x00, 0x01, rnd 0, rnd 1, rnd 2, rnd 3, 0xFF],
           created_messageId = 1, created_token = [rnd 0, rnd 1, rnd 2, rnd 3],
           next_messageId = 2\<rparr>"
proof -
  have "encodeOptions engine [(''payload'', OBytes [])] = Inr []"
    by (simp add: encodeOptions_def sortedOptions_def numberedOptions_def
        consistentComparator_def stableSort_def)
  from createMessage_bytes [OF this, of rnd 1 0 1] assms show ?thesis
    by (simp add: spec_payload_def toUint8_def js_or_def js_shl_def js_shr_def js_and_def
        toInt32_def)
qed

text \<open>
  Claim C7, with its last part as the code has it. CoAP decode distinguishes an absent
  payload from an empty one. The marker of a message is the \<open>0xFF\<close> byte that follows its
  options in the layout of RFC 7252 (four header bytes, the token whose length the first
  byte gives, the options in ascending order); a \<open>0xFF\<close> byte inside the token or inside
  an option is not a marker. For every input without a marker the decoded payload is
  absent (also for every input, of any shape, without a \<open>0xFF\<close> byte); for every input
  where the marker is present the payload is present and is every byte after the marker;
  and for an input that ends exactly at the marker the payload is the empty byte string,
  present: the message is returned like any other.
\<close>

theorem C7_payload_absent_or_after_marker:
  fixes b0 b1 b2 b3 :: byte
  assumes "length token = unat (b0 AND 0x0F)"
    and "sorted (map fst opts)"
    and "\<forall>(n, v) \<in> set opts. n < 65536 \<and> length v < 65805"
  shows "msg_payload (parseMessage ([b0, b1, b2, b3] @ token @ spec_options 0 opts)) = None \<and>
         msg_payload (parseMessage ([b0, b1, b2, b3] @ token @ spec_options 0 opts @ 0xFF # p))
           = Some p \<and>
         msg_payload (parseMessage ([b0, b1, b2, b3] @ token @ spec_options 0 opts @ [0xFF]))
           = Some [] \<and>
         (0xFF \<notin> set buf \<longrightarrow> msg_payload (parseMessage buf) = None)"
proof -
  have 1: "msg_payload (parseMessage ([b0, b1, b2, b3] @ token @ spec_options 0 opts)) = None"
    using parseMessage_wire [OF assms, where pl = None and ?b1.0 = b1 and ?b2.0 = b2
        and ?b3.0 = b3] by simp
  have 2: "msg_payload (parseMessage ([b0, b1, b2, b3] @ token @ spec_options 0 opts @ 0xFF # q))
      = Some q" for q
    using parseMessage_wire [OF assms, where pl = "Some q" and ?b1.0 = b1 and ?b2.0 = b2
        and ?b3.0 = b3] by simp
  from 1 2 [of p] 2 [of "[]"] no_marker_byte [of buf] show ?thesis by blast
qed

lemma unat_41_nibble: "unat ((0x41 :: byte) AND 0x0F) = 1"
  by (simp add: low_nibble)

theorem C7_payload_absent_or_after_marker_witness:
  "length [0xFF :: byte] = unat ((0x41 :: byte) AND 0x0F) \<and>
   sorted (map fst [(11 :: nat, [0x61, 0xFF :: byte])]) \<and>
   msg_payload (parseMessage [0x41, 0x01, 0x00, 0x01, 0xFF, 0xB2, 0x61, 0xFF]) = None \<and>
   msg_payload (parseMessage [0x41, 0x01, 0x00, 0x01, 0xFF, 0xB2, 0x61, 0xFF, 0xFF, 0x07])
     = Some [0x07] \<and>
   msg_payload (parseMessage [0x41, 0x01, 0x00, 0x01, 0xFF, 0xB2, 0x61, 0xFF, 0xFF]) = Some [] \<and>
   msg_payload (parseMessage [0x40, 0x01, 0x00, 0x01]) = None \<and>
   msg_payload (parseMessage [0x41, 0x01, 0x00, 0x01, 0xFF]) = None"
  using C7_payload_absent_or_after_marker [where token = "[0xFF]" and ?b0.0 = "0x41"
      and opts = "[(11, [0x61, 0xFF])]" and ?b1.0 = "0x01" and ?b2.0 = "0x00" and ?b3.0 = "0x01"
      and p = "[0x07]" and buf = "[0x40, 0x01, 0x00, 0x01]"]
    C7_payload_absent_or_after_marker [where token = "[0xFF]" and ?b0.0 = "0x41"
      and opts = "[]" and ?b1.0 = "0x01" and ?b2.0 = "0x00" and ?b3.0 = "0x01"
      and p = "[]" and buf = "[]"]
  by (simp add: unat_41_nibble spec_option_def spec_nibble_def spec_ext_def)

text \<open>
  Claim C7 as stated fails on its last part: the input \<open>40 01 00 01 FF\<close> ends exactly at
  the marker, and \<open>parseMessage\<close> returns an ordinary message with the empty payload. The
  result has no field that could flag it, and nothing is thrown.
\<close>

theorem C7_marker_at_end_accepted:
  "parseMessage [0x40, 0x01, 0x00, 0x01, 0xFF]
     = \<lparr>msg_version = 1, msg_type = 0, msg_code = Some 1, msg_codeClass = 0,
         msg_codeDetail = 1, msg_messageId = 1, msg_token = [], msg_options = [],
         msg_payload = Some []\<rparr>"
  using parseMessage_wire [where token = "[]" and ?b0.0 = "0x40" and opts = "[]" and ?b1.0 = "0x01"
      and ?b2.0 = "0x00" and ?b3.0 = "0x01" and pl = "Some []"]
  by (simp add: low_nibble spec_grouped_def)

subsection \<open>Sorting before the deltas\<close>

text \<open>
  Claim C8. The options given to \<open>encodeOptions\<close> are sorted ascending by option number
  before the deltas are computed, whatever order they come in, and nothing is rejected for
  being out of order. For every options object whose keys all give a number: the list the
  delta loop walks is the stable ascending sort of the entries by option number (so it is
  ascending, holds the same entries, and entries with one number keep the order in which
  they were given); the output is the encoding of that list, unless a value has more bytes
  than a call takes arguments; and when the option numbers are distinct, any reordering of
  the input gives the same output. In particular the options \<open>{15: "b", 11: "a"}\<close> are
  written as \<open>B1 61 41 62\<close>, URI-Path (11, delta 11) with value \<open>a\<close> first, then URI-Query
  (15, delta 4) with value \<open>b\<close>, in whichever order the two entries are listed. (An
  object with the integer keys 15 and 11 lists them as 11, 15 whatever order they were
  written in; entries do come out of order when the options are given by name, as in
  \<open>{'uri-query': "b", 'uri-path': "a"}\<close>, which is written as the same four bytes.)
\<close>

theorem C8_encodeOptions_sorts:
  assumes "numberedOptions options = map (\<lambda>(n, v). (Num n, v)) ents"
  shows "sortedOptions engine options = map (\<lambda>(n, v). (Num n, v)) (sort_key fst ents) \<and>
         sorted (map (numInt \<circ> fst) (sortedOptions engine options)) \<and>
         mset (sortedOptions engine options) = mset (numberedOptions options) \<and>
         encodeOptions engine options =
           (if \<exists>(n, v) \<in> set ents. engine_maxArgs engine < length (optionValueBytes v)
            then Inl RangeError
            else Inr (encodeSorted (Num 0) (sortedOptions engine options))) \<and>
         (distinct (map fst ents) \<and> mset options' = mset options
            \<longrightarrow> encodeOptions engine options' = encodeOptions engine options) \<and>
         (1 \<le> engine_maxArgs engine \<longrightarrow>
            encodeOptions engine [(''15'', OString [0x62]), (''11'', OString [0x61])]
              = Inr [0xB1, 0x61, 0x41, 0x62] \<and>
            encodeOptions engine [(''11'', OString [0x61]), (''15'', OString [0x62])]
              = Inr [0xB1, 0x61, 0x41, 0x62] \<and>
            encodeOptions engine [(''uri-query'', OString [0x62]), (''uri-path'', OString [0x61])]
              = Inr [0xB1, 0x61, 0x41, 0x62])"
proof -
  let ?f = "\<lambda>(n, v). (Num n, v) :: jsnumber \<times> option_value"
  have 1: "sortedOptions engine options = map ?f (sort_key fst ents)"
    using assms by (rule sortedOptions_Num)
  have "map (numInt \<circ> fst) (map ?f (sort_key fst ents)) = map fst (sort_key fst ents)"
    by (simp add: comp_def case_prod_beta numInt_def)
  then have 2: "sorted (map (numInt \<circ> fst) (sortedOptions engine options))"
    unfolding 1 by (simp only: sorted_sort_key)
  have 3: "mset (sortedOptions engine options) = mset (numberedOptions options)"
    unfolding 1 assms by simp
  have 4: "encodeOptions engine options =
      (if \<exists>(n, v) \<in> set ents. engine_maxArgs engine < length (optionValueBytes v)
       then Inl RangeError
       else Inr (encodeSorted (Num 0) (sortedOptions engine options)))"
    unfolding 1 using assms by (rule encodeOptions_Num)
  have 5: "distinct (map fst ents) \<and> mset options' = mset options
      \<longrightarrow> encodeOptions engine options' = encodeOptions engine options"
    using encodeOptions_permuted [OF assms] by blast
  from 1 2 3 4 5 encodeOptions_example encodeOptions_example_sorted encodeOptions_named
  show ?thesis by blast
qed

theorem C8_encodeOptions_sorts_witness:
  "numberedOptions [(''uri-query'', OString [0x62]), (''uri-path'', OString [0x61])]
     = map (\<lambda>(n, v). (Num n, v)) [(15, OString [0x62]), (11, OString [0x61])] \<and>
   distinct (map fst [(15 :: int, OString [0x62]), (11, OString [0x61])]) \<and>
   sortedOptions \<lparr>engine_sort = id, engine_maxArgs = 65535\<rparr>
       [(''uri-query'', OString [0x62]), (''uri-path'', OString [0x61])]
     = [(Num 11, OString [0x61]), (Num 15, OString [0x62])] \<and>
   encodeOptions \<lparr>engine_sort = id, engine_maxArgs = 65535\<rparr>
       [(''uri-query'', OString [0x62]), (''uri-path'', OString [0x61])]
     = Inr [0xB1, 0x61, 0x41, 0x62] \<and>
   encodeOptions \<lparr>engine_sort = id, engine_maxArgs = 65535\<rparr>
       [(''uri-path'', OString [0x61]), (''uri-query'', OString [0x62])]
     = Inr [0xB1, 0x61, 0x41, 0x62]"
  using C8_encodeOptions_sorts [where options = "[(''uri-query'', OString [0x62]), (''uri-path'', OString [0x61])]"
      and ents = "[(15, OString [0x62]), (11, OString [0x61])]"
      and engine = "\<lparr>engine_sort = id, engine_maxArgs = 65535\<rparr>"
      and options' = "[(''uri-path'', OString [0x61]), (''uri-query'', OString [0x62])]"]
  by (simp add: numberedOptions_def getOptionNumber_uri_query getOptionNumber_uri_path
      optionValueBytes_def encodeSorted_example del: encodeSorted.simps)

section \<open>Feeding the receive buffer in chunks\<close>

lemma checksum_v2_sample: "calculateChecksum_v2 0 [0x60, 0x45, 0xFF, 1, 2] = 423"
  by (simp add: js_and_def toInt32_def)

lemma packFrame_sample:
  "packFrame 1 [0x60, 0x45, 0xFF, 1, 2]
     = ([0x40, 0x05, 0x00, 0x01, 0xB1, 0x63, 0x01, 0xA7, 0x33, 0x64, 0x3D, 0x61, 0x21, 0x8E, 0xFF,
         0x60, 0x45, 0xFF, 1, 2], 2)"
  by (simp add: packFrame_def checksum_v2_sample toUint8_def js_and_def js_shr_def toInt32_def)

lemma checksum_backtick: "calculateChecksum [0x3E, 0x60, 0x45, 0xFF, 0x01, 0x02, 0x3C] = 0x3E9E"
  by (simp add: calculateChecksum_def js_eval foldCarry_small)

lemma str_3e9e: "checksumStr 0x3E9E = [0x33, 0x65, 0x39, 0x65]"
  by (simp add: hex_eval)

lemma createFrame_backtick:
  "createFrame (CHR 0x60) [0x45, 0xFF, 0x01, 0x02]
     = [0x3E, 0x60, 0x45, 0xFF, 0x01, 0x02, 0x3C, 0x33, 0x65, 0x39, 0x65]"
  by (simp add: createFrame_def marker_defs checksum_backtick str_3e9e)

text \<open>
  Claim C4. Feeding the bytes of a packed frame in chunks should give the same frame as
  feeding them in one call. \<open>extractFrames\<close> hands a payload out as soon as the buffer
  holds \<open>0x60 0x45\<close>, a later \<open>0xFF\<close> and one more byte, with whatever has arrived, and
  drops what it used. For the frame \<open>packFrame\<close> builds from the payload
  \<open>60 45 FF 01 02\<close>, one call gives the frame \<open>01 02\<close>; the same bytes cut before the last
  one give the frame \<open>01\<close> and leave \<open>02\<close> in the buffer. The frame \<open>createFrame\<close> builds
  for type \<open>0x60\<close> and payload \<open>45 FF 01 02\<close> shows the same.
\<close>

theorem C4_chunks_change_the_frame:
  "fst (packFrame 1 [0x60, 0x45, 0xFF, 1, 2])
     = [0x40, 0x05, 0x00, 0x01, 0xB1, 0x63, 0x01, 0xA7, 0x33, 0x64, 0x3D, 0x61, 0x21, 0x8E, 0xFF,
        0x60, 0x45, 0xFF, 1, 2] \<and>
   feedChunks [] [fst (packFrame 1 [0x60, 0x45, 0xFF, 1, 2])] = ([[1, 2]], []) \<and>
   feedChunks []
     [take 19 (fst (packFrame 1 [0x60, 0x45, 0xFF, 1, 2])),
      drop 19 (fst (packFrame 1 [0x60, 0x45, 0xFF, 1, 2]))] = ([[1]], [2]) \<and>
   feedChunks [] [createFrame (CHR 0x60) [0x45, 0xFF, 0x01, 0x02]]
     = ([[0x01, 0x02, 0x3C, 0x33, 0x65, 0x39, 0x65]], []) \<and>
   feedChunks []
     [take 5 (createFrame (CHR 0x60) [0x45, 0xFF, 0x01, 0x02]),
      drop 5 (createFrame (CHR 0x60) [0x45, 0xFF, 0x01, 0x02])]
     = ([[0x01]], [0x02, 0x3C, 0x33, 0x65, 0x39, 0x65])"
  unfolding packFrame_sample createFrame_backtick
  by (simp add: processData_def extractFrames_def extractFrom.simps)

end
